theory Spec2Isabelle
  imports Complex_Main "HOL-Library.Multiset"
begin

chapter \<open>Minting budgets on a weighted graph\<close>

text \<open>
  An embedding of \<open>core/mintBudget.js\<close>: the prefix-conflict check, the lookup of the
  budget of a timestamp, the weight normalizer and \<open>applyBudget\<close>, with the properties
  C1 to C10 of its specification.
\<close>

section \<open>JavaScript numbers\<close>

text \<open>
  The module computes with JavaScript numbers, which are IEEE binary64 values, and
  itself produces \<open>Infinity\<close> and \<open>-Infinity\<close>. A number is modelled as NaN, one of
  the two infinities, or a finite real. Every arithmetic operation rounds its exact
  result to binary64: to the nearest representable value, ties to the even
  significand, with gradual underflow and with overflow to an infinity. Zero is
  unsigned; a zero divisor is taken as \<open>+0\<close>, which is the only zero the one divisor
  of this module (a sum that starts at \<open>0\<close>) can be.
\<close>

datatype jsnum = NaN | NInf | Fin real | PInf

text \<open>The nearest integer, a tie going to the even one.\<close>

definition round_even :: "real \<Rightarrow> int" where
  "round_even q =
     (let f = \<lfloor>q\<rfloor>; d = q - of_int f
      in if d < 1 / 2 then f else if 1 / 2 < d then f + 1
         else if even f then f else f + 1)"

text \<open>
  The greatest power of two that is at most \<open>a\<close>, for a positive \<open>a\<close> whose binary
  exponent is at most \<open>n\<close> in absolute value.
\<close>

fun pow2floor :: "nat \<Rightarrow> real \<Rightarrow> real" where
  "pow2floor 0 a = 1"
| "pow2floor (Suc n) a =
     (if 2 \<le> a then 2 * pow2floor n (a / 2)
      else if a < 1 then pow2floor n (2 * a) / 2
      else 1)"

text \<open>
  The least positive normal number, \<open>2^-1022\<close>, and the least magnitude that is
  too large to be finite, \<open>2^1024\<close>.
\<close>

definition min_normal :: real where
  "min_normal = 1 / 2 ^ 1022"

definition overflow_threshold :: real where
  "overflow_threshold = 2 ^ 1024"

text \<open>
  Rounding to binary64. A magnitude \<open>a\<close> with \<open>2^e <= a < 2^(e+1)\<close> is rounded to
  a multiple of the spacing \<open>2^(e-52)\<close>; below \<open>2^-1022\<close> the spacing stays
  \<open>2^-1074\<close> (subnormal numbers, and underflow to zero).
\<close>

definition ulp64 :: "real \<Rightarrow> real" where
  "ulp64 a = (if a < min_normal then min_normal else pow2floor 1023 a) / 2 ^ 52"

definition round64 :: "real \<Rightarrow> real" where
  "round64 a = of_int (round_even (a / ulp64 a)) * ulp64 a"

text \<open>
  The number a real rounds to: a magnitude that is, or rounds to, \<open>2^1024\<close> or more
  gives an infinity.
\<close>

definition fl64 :: "real \<Rightarrow> jsnum" where
  "fl64 x =
     (if overflow_threshold \<le> \<bar>x\<bar> \<or> overflow_threshold \<le> round64 \<bar>x\<bar>
      then (if x < 0 then NInf else PInf)
      else Fin (if x < 0 then - round64 \<bar>x\<bar> else round64 \<bar>x\<bar>))"

text \<open>
  The finite values that are JavaScript numbers are those that rounding leaves as
  they are.
\<close>

definition isDouble :: "jsnum \<Rightarrow> bool" where
  "isDouble v = (case v of Fin x \<Rightarrow> fl64 x = Fin x | _ \<Rightarrow> True)"

text \<open>\<open>a <= b\<close>: false as soon as one side is NaN.\<close>

fun jle :: "jsnum \<Rightarrow> jsnum \<Rightarrow> bool" where
  "jle (Fin x) (Fin y) = (x \<le> y)"
| "jle NaN _ = False"
| "jle _ NaN = False"
| "jle NInf _ = True"
| "jle _ PInf = True"
| "jle _ _ = False"

text \<open>\<open>a < b\<close>.\<close>

fun jlt :: "jsnum \<Rightarrow> jsnum \<Rightarrow> bool" where
  "jlt (Fin x) (Fin y) = (x < y)"
| "jlt NaN _ = False"
| "jlt _ NaN = False"
| "jlt PInf _ = False"
| "jlt _ NInf = False"
| "jlt _ _ = True"

text \<open>\<open>a + b\<close>.\<close>

fun jadd :: "jsnum \<Rightarrow> jsnum \<Rightarrow> jsnum" where
  "jadd (Fin x) (Fin y) = fl64 (x + y)"
| "jadd NaN _ = NaN"
| "jadd _ NaN = NaN"
| "jadd PInf NInf = NaN"
| "jadd NInf PInf = NaN"
| "jadd PInf _ = PInf"
| "jadd _ PInf = PInf"
| "jadd NInf _ = NInf"
| "jadd _ NInf = NInf"

text \<open>\<open>a * b\<close>: an infinity times zero is NaN.\<close>

fun jmul :: "jsnum \<Rightarrow> jsnum \<Rightarrow> jsnum" where
  "jmul (Fin x) (Fin y) = fl64 (x * y)"
| "jmul NaN _ = NaN"
| "jmul _ NaN = NaN"
| "jmul PInf (Fin y) = (if y = 0 then NaN else if 0 < y then PInf else NInf)"
| "jmul NInf (Fin y) = (if y = 0 then NaN else if 0 < y then NInf else PInf)"
| "jmul (Fin x) PInf = (if x = 0 then NaN else if 0 < x then PInf else NInf)"
| "jmul (Fin x) NInf = (if x = 0 then NaN else if 0 < x then NInf else PInf)"
| "jmul PInf PInf = PInf"
| "jmul PInf NInf = NInf"
| "jmul NInf PInf = NInf"
| "jmul NInf NInf = PInf"

text \<open>\<open>a / b\<close>: division by zero gives an infinity, or NaN for \<open>0 / 0\<close>.\<close>

fun jdiv :: "jsnum \<Rightarrow> jsnum \<Rightarrow> jsnum" where
  "jdiv (Fin x) (Fin y) =
     (if y = 0 then (if x = 0 then NaN else if 0 < x then PInf else NInf)
      else fl64 (x / y))"
| "jdiv NaN _ = NaN"
| "jdiv _ NaN = NaN"
| "jdiv (Fin x) _ = Fin 0"
| "jdiv PInf (Fin y) = (if 0 \<le> y then PInf else NInf)"
| "jdiv NInf (Fin y) = (if 0 \<le> y then NInf else PInf)"
| "jdiv _ _ = NaN"

text \<open>A number is truthy unless it is zero or NaN.\<close>

fun truthy :: "jsnum \<Rightarrow> bool" where
  "truthy NaN = False"
| "truthy (Fin x) = (x \<noteq> 0)"
| "truthy _ = True"

section \<open>Data model\<close>

text \<open>A node address is its sequence of parts.\<close>

type_synonym NodeAddressT = "string list"

type_synonym TimestampMs = jsnum

record BudgetPeriod =
  startTimeMs :: TimestampMs
  budget :: jsnum

record BudgetEntry =
  prefix :: NodeAddressT
  periods :: "BudgetPeriod list"

text \<open>
  The interval length is typed \<open>"WEEKLY"\<close>, but the code compares it at run time and
  the tests pass \<open>"DAILY"\<close>: it is a string.
\<close>

record Budget =
  entries :: "BudgetEntry list"
  intervalLength :: string

text \<open>\<open>AddressWeight\<close> and \<open>Reweight\<close> have the same two fields.\<close>

record AddressWeight =
  address :: NodeAddressT
  weight :: jsnum

type_synonym Reweight = AddressWeight
type_synonym Reweighting = "Reweight list"

text \<open>
  One element of the interval partition: the interval's start time and the nodes of
  the interval, of which this module reads the addresses only.
\<close>

record Bucket =
  interval_startTimeMs :: TimestampMs
  nodes :: "NodeAddressT list"

type_synonym GraphIntervalPartition = "Bucket list"

text \<open>
  The weights object, of which this module reads and writes the node weights only:
  a JavaScript \<open>Map\<close> from address to number.
\<close>

record Weights =
  nodeWeights :: "NodeAddressT \<rightharpoonup> jsnum"

text \<open>
  Objects that are mutated live in a store, a list of weights objects indexed by
  reference. A weighted graph holds its graph (an opaque value this module only hands
  to the partitioner) and the reference of its weights.
\<close>

type_synonym ref = nat

record 'g WeightedGraph =
  graph :: 'g
  weights :: ref

type_synonym NodeWeightEvaluator = "NodeAddressT \<Rightarrow> jsnum"

datatype error =
    PrefixConflict
  | NonWeeklyBudget
  | PeriodsOutOfOrder NodeAddressT

section \<open>Collaborators outside the module\<close>

text \<open>
  Modelled from the spec: \<open>NodeAddress.hasPrefix(address, prefix)\<close> of the graph
  module. The prefix's parts are a leading subsequence of the address's parts; an
  address is a prefix of itself.
\<close>

fun hasPrefix :: "NodeAddressT \<Rightarrow> NodeAddressT \<Rightarrow> bool" where
  "hasPrefix a [] = True"
| "hasPrefix [] (p # ps) = False"
| "hasPrefix (x # xs) (p # ps) = (x = p \<and> hasPrefix xs ps)"

text \<open>
  Modelled from the spec: \<open>nodeWeightEvaluator(weights)\<close> of the weight evaluator
  module. It resolves an address's effective weight: the value of the weight table,
  \<open>1\<close> when the address is unset.
\<close>

definition nodeWeightEvaluator :: "Weights \<Rightarrow> NodeWeightEvaluator" where
  "nodeWeightEvaluator w a = (case nodeWeights w a of None \<Rightarrow> Fin 1 | Some x \<Rightarrow> x)"

text \<open>
  Modelled from the spec: \<open>NullUtil.orElse(x, d)\<close> of the null utilities, the
  default when the value is absent.
\<close>

definition orElse :: "'a option \<Rightarrow> 'a \<Rightarrow> 'a" where
  "orElse x d = (case x of None \<Rightarrow> d | Some v \<Rightarrow> v)"

text \<open>
  \<open>sum(values, valueof)\<close> of the d3-array library, a dependency of the repository.
  Its loop is
  \<^verbatim>\<open>if (value = +valueof(value, ++index, values)) sum += value;\<close>
  starting from \<open>sum = 0\<close>: it adds every value the accessor returns that is truthy,
  so that zeros and NaN are skipped.
\<close>

fun d3_sum_loop :: "jsnum list \<Rightarrow> jsnum \<Rightarrow> jsnum" where
  "d3_sum_loop [] s = s"
| "d3_sum_loop (v # vs) s = d3_sum_loop vs (if truthy v then jadd s v else s)"

definition d3_sum :: "'a list \<Rightarrow> ('a \<Rightarrow> jsnum) \<Rightarrow> jsnum" where
  "d3_sum values valueof = d3_sum_loop (map valueof values) (Fin 0)"

section \<open>The module\<close>

text \<open>
  The functions keep the names they have in the source, without the leading
  underscore of the internal ones. A function that throws returns a sum, the error
  on the left.
\<close>

subsection \<open>Prefix conflicts\<close>

text \<open>The inner loop of \<open>_anyCommonPrefixes\<close>, from index \<open>j\<close>: true when it returns true.\<close>

function anyCommonPrefixes_inner :: "NodeAddressT list \<Rightarrow> nat \<Rightarrow> nat \<Rightarrow> bool" where
  "anyCommonPrefixes_inner addresses i j =
     (if j < length addresses then
        (if i = j then anyCommonPrefixes_inner addresses i (j + 1)
         else if hasPrefix (addresses ! i) (addresses ! j) then True
         else if hasPrefix (addresses ! j) (addresses ! i) then True
         else anyCommonPrefixes_inner addresses i (j + 1))
      else False)"
  by pat_completeness auto
termination
  by (relation "measure (\<lambda>(addresses, i, j). length addresses - j)") auto

declare anyCommonPrefixes_inner.simps [simp del]

text \<open>The outer loop, from index \<open>i\<close>.\<close>

function anyCommonPrefixes_outer :: "NodeAddressT list \<Rightarrow> nat \<Rightarrow> bool" where
  "anyCommonPrefixes_outer addresses i =
     (if i < length addresses then
        (if anyCommonPrefixes_inner addresses i i then True
         else anyCommonPrefixes_outer addresses (i + 1))
      else False)"
  by pat_completeness auto
termination
  by (relation "measure (\<lambda>(addresses, i). length addresses - i)") auto

declare anyCommonPrefixes_outer.simps [simp del]

definition anyCommonPrefixes :: "NodeAddressT list \<Rightarrow> bool" where
  "anyCommonPrefixes addresses = anyCommonPrefixes_outer addresses 0"

subsection \<open>Sortedness of the periods\<close>

fun inSortedOrder_loop :: "jsnum list \<Rightarrow> jsnum \<Rightarrow> bool" where
  "inSortedOrder_loop [] last_x = True"
| "inSortedOrder_loop (x # xs) last_x =
     (if jlt x last_x then False else inSortedOrder_loop xs x)"

definition inSortedOrder :: "jsnum list \<Rightarrow> bool" where
  "inSortedOrder xs = inSortedOrder_loop xs NInf"

subsection \<open>The budget of a timestamp\<close>

text \<open>
  The while loop of \<open>_findCurrentBudget\<close>. \<open>currentIndex\<close> starts at \<open>-1\<close> and only
  grows, so \<open>currentIndex + 1\<close> is never negative.
\<close>

function findCurrentBudget_loop ::
  "BudgetPeriod list \<Rightarrow> TimestampMs \<Rightarrow> int \<Rightarrow> jsnum \<Rightarrow> jsnum" where
  "findCurrentBudget_loop ps timestamp currentIndex currentBudget =
     (if currentIndex + 1 < int (length ps) \<and>
         jle (startTimeMs (ps ! nat (currentIndex + 1))) timestamp
      then findCurrentBudget_loop ps timestamp (currentIndex + 1)
             (budget (ps ! nat (currentIndex + 1)))
      else currentBudget)"
  by pat_completeness auto
termination
  by (relation "measure (\<lambda>(ps, timestamp, currentIndex, currentBudget).
        nat (int (length ps) - currentIndex))") auto

declare findCurrentBudget_loop.simps [simp del]

definition findCurrentBudget :: "BudgetPeriod list \<Rightarrow> TimestampMs \<Rightarrow> jsnum" where
  "findCurrentBudget ps timestamp = findCurrentBudget_loop ps timestamp (- 1) PInf"

subsection \<open>The normalizer\<close>

definition computeWeightNormalizer :: "AddressWeight list \<Rightarrow> jsnum \<Rightarrow> jsnum" where
  "computeWeightNormalizer aws bud =
     (let totalWeight = d3_sum aws weight
      in if jle totalWeight bud then Fin 1 else jdiv bud totalWeight)"

subsection \<open>The steps of a run\<close>

text \<open>
  Some properties of \<open>applyBudget\<close> are about the order in which a run validates,
  computes and writes. The model therefore records, in order, the steps a run
  performs: the three kinds of validation, the allocation of the result's weights,
  each call of the weight evaluator, each computation of a normalizer, and each
  \<open>set\<close> on the result's weight table.
\<close>

datatype event =
    CheckedPrefixes
  | CheckedIntervalLength
  | CopiedWeights
  | CheckedPeriods NodeAddressT
  | EvaluatedWeight NodeAddressT
  | ComputedNormalizer
  | SetWeight NodeAddressT

text \<open>The world of a run: the store of weights objects and the steps performed so far.\<close>

record world =
  heap :: "Weights list"
  trace :: "event list"

text \<open>
  Modelled from the spec: \<open>Weights.copy(w)\<close> of the weights module. It allocates a
  new weights object that holds the entries of the given one.
\<close>

definition Weights_copy :: "world \<Rightarrow> ref \<Rightarrow> ref \<times> world" where
  "Weights_copy w r =
     (length (heap w),
      w\<lparr>heap := heap w @ [heap w ! r], trace := trace w @ [CopiedWeights]\<rparr>)"

subsection \<open>The reweighting of one entry\<close>

text \<open>
  The loop of \<open>_reweightingForEntry\<close> over the partition, with the array \<open>results\<close>
  it pushes to.
\<close>

fun reweightingForEntry_loop ::
  "NodeWeightEvaluator \<Rightarrow> BudgetPeriod list \<Rightarrow> NodeAddressT \<Rightarrow> GraphIntervalPartition \<Rightarrow>
   Reweighting \<Rightarrow> event list \<Rightarrow> Reweighting \<times> event list" where
  "reweightingForEntry_loop evaluator ps pre [] results tr = (results, tr)"
| "reweightingForEntry_loop evaluator ps pre (b # bs) results tr =
     (let bud = findCurrentBudget ps (interval_startTimeMs b);
          addresses = nodes b;
          filteredAddresses = filter (\<lambda>a. hasPrefix a pre) addresses;
          addressWeights =
            map (\<lambda>a. \<lparr>address = a, weight = evaluator a\<rparr>) filteredAddresses;
          normalizer = computeWeightNormalizer addressWeights bud
      in reweightingForEntry_loop evaluator ps pre bs
           (if normalizer \<noteq> Fin 1
            then results @ map (\<lambda>a. \<lparr>address = a, weight = normalizer\<rparr>) filteredAddresses
            else results)
           (tr @ map EvaluatedWeight filteredAddresses @ [ComputedNormalizer]))"

definition reweightingForEntry ::
  "NodeWeightEvaluator \<Rightarrow> GraphIntervalPartition \<Rightarrow> BudgetEntry \<Rightarrow> event list \<Rightarrow>
   (error + Reweighting) \<times> event list" where
  "reweightingForEntry evaluator part entry tr =
     (if \<not> inSortedOrder (map startTimeMs (periods entry))
      then (Inl (PeriodsOutOfOrder (prefix entry)), tr @ [CheckedPeriods (prefix entry)])
      else (case reweightingForEntry_loop evaluator (periods entry) (prefix entry) part []
                   (tr @ [CheckedPeriods (prefix entry)]) of
              (results, tr') \<Rightarrow> (Inr results, tr')))"

subsection \<open>The reweighting of a budget\<close>

text \<open>
  \<open>budget.entries.map(...)\<close>: the entries in order; an entry that throws ends the run.
\<close>

fun computeReweighting_map ::
  "NodeWeightEvaluator \<Rightarrow> GraphIntervalPartition \<Rightarrow> BudgetEntry list \<Rightarrow> event list \<Rightarrow>
   (error + Reweighting list) \<times> event list" where
  "computeReweighting_map evaluator part [] tr = (Inr [], tr)"
| "computeReweighting_map evaluator part (entry # rest) tr =
     (case reweightingForEntry evaluator part entry tr of
        (Inl e, tr') \<Rightarrow> (Inl e, tr')
      | (Inr r, tr') \<Rightarrow>
          (case computeReweighting_map evaluator part rest tr' of
             (Inl e, tr'') \<Rightarrow> (Inl e, tr'')
           | (Inr rs, tr'') \<Rightarrow> (Inr (r # rs), tr'')))"

text \<open>
  \<open>partitionGraph\<close> of the interval module is a parameter. The evaluator is built
  from the weights the graph refers to.
\<close>

definition computeReweighting ::
  "('g \<Rightarrow> GraphIntervalPartition) \<Rightarrow> world \<Rightarrow> 'g WeightedGraph \<Rightarrow> Budget \<Rightarrow>
   (error + Reweighting) \<times> world" where
  "computeReweighting partitionGraph w wg b =
     (let evaluator = nodeWeightEvaluator (heap w ! weights wg);
          part = partitionGraph (graph wg)
      in case computeReweighting_map evaluator part (entries b) (trace w) of
           (Inl e, tr) \<Rightarrow> (Inl e, w\<lparr>trace := tr\<rparr>)
         | (Inr reweightingsForEachBudget, tr) \<Rightarrow>
             (Inr (concat reweightingsForEachBudget), w\<lparr>trace := tr\<rparr>))"

subsection \<open>Applying a budget\<close>

text \<open>
  The loop of \<open>applyBudget\<close> over the reweighting: it reads the existing weight in
  the weights of the input graph and sets the new one in \<open>newWeights\<close>.
\<close>

fun applyBudget_loop :: "'g WeightedGraph \<Rightarrow> ref \<Rightarrow> Reweighting \<Rightarrow> world \<Rightarrow> world" where
  "applyBudget_loop wg newWeights [] w = w"
| "applyBudget_loop wg newWeights (r # rs) w =
     (let existingWeight = orElse (nodeWeights (heap w ! weights wg) (address r)) (Fin 1);
          table = heap w ! newWeights
      in applyBudget_loop wg newWeights rs
           (w\<lparr>heap := (heap w)[newWeights :=
                   table\<lparr>nodeWeights :=
                     (nodeWeights table)(address r \<mapsto> jmul existingWeight (weight r))\<rparr>],
              trace := trace w @ [SetWeight (address r)]\<rparr>))"

text \<open>
  \<open>applyBudget\<close> takes the world before the call and returns, with the world after
  it, the new weighted graph or the error it throws.
\<close>

definition applyBudget ::
  "('g \<Rightarrow> GraphIntervalPartition) \<Rightarrow> world \<Rightarrow> 'g WeightedGraph \<Rightarrow> Budget \<Rightarrow>
   (error + 'g WeightedGraph) \<times> world" where
  "applyBudget partitionGraph w wg b =
     (let w1 = w\<lparr>trace := trace w @ [CheckedPrefixes]\<rparr>
      in if anyCommonPrefixes (map prefix (entries b)) then (Inl PrefixConflict, w1)
         else
           let w2 = w1\<lparr>trace := trace w1 @ [CheckedIntervalLength]\<rparr>
           in if intervalLength b \<noteq> ''WEEKLY'' then (Inl NonWeeklyBudget, w2)
              else
                (case Weights_copy w2 (weights wg) of
                   (newWeights, w3) \<Rightarrow>
                     (case computeReweighting partitionGraph w3 wg b of
                        (Inl e, w4) \<Rightarrow> (Inl e, w4)
                      | (Inr reweighting, w4) \<Rightarrow>
                          (Inr \<lparr>graph = graph wg, weights = newWeights\<rparr>,
                           applyBudget_loop wg newWeights reweighting w4))))"

section \<open>Notions for stating what a run computes\<close>

text \<open>
  The records the body of the loop of \<open>_reweightingForEntry\<close> pushes for one bucket,
  and the steps it performs there.
\<close>

definition bucketReweights ::
  "NodeWeightEvaluator \<Rightarrow> BudgetPeriod list \<Rightarrow> NodeAddressT \<Rightarrow> Bucket \<Rightarrow> Reweighting" where
  "bucketReweights evaluator ps pre b =
     (let filteredAddresses = filter (\<lambda>a. hasPrefix a pre) (nodes b);
          normalizer =
            computeWeightNormalizer
              (map (\<lambda>a. \<lparr>address = a, weight = evaluator a\<rparr>) filteredAddresses)
              (findCurrentBudget ps (interval_startTimeMs b))
      in if normalizer \<noteq> Fin 1
         then map (\<lambda>a. \<lparr>address = a, weight = normalizer\<rparr>) filteredAddresses
         else [])"

text \<open>The normalizer the body of that loop computes for one bucket.\<close>

definition bucketNormalizer ::
  "NodeWeightEvaluator \<Rightarrow> BudgetPeriod list \<Rightarrow> NodeAddressT \<Rightarrow> Bucket \<Rightarrow> jsnum" where
  "bucketNormalizer evaluator ps pre b =
     computeWeightNormalizer
       (map (\<lambda>a. \<lparr>address = a, weight = evaluator a\<rparr>)
          (filter (\<lambda>a. hasPrefix a pre) (nodes b)))
       (findCurrentBudget ps (interval_startTimeMs b))"

definition bucketEvents :: "NodeAddressT \<Rightarrow> Bucket \<Rightarrow> event list" where
  "bucketEvents pre b =
     map EvaluatedWeight (filter (\<lambda>a. hasPrefix a pre) (nodes b)) @ [ComputedNormalizer]"

text \<open>The same for one entry whose periods pass the check, over the whole partition.\<close>

definition entryReweights ::
  "NodeWeightEvaluator \<Rightarrow> GraphIntervalPartition \<Rightarrow> BudgetEntry \<Rightarrow> Reweighting" where
  "entryReweights evaluator part entry =
     concat (map (bucketReweights evaluator (periods entry) (prefix entry)) part)"

definition entryEvents :: "GraphIntervalPartition \<Rightarrow> BudgetEntry \<Rightarrow> event list" where
  "entryEvents part entry =
     CheckedPeriods (prefix entry) # concat (map (bucketEvents (prefix entry)) part)"

definition periodsInOrder :: "BudgetEntry \<Rightarrow> bool" where
  "periodsInOrder entry = inSortedOrder (map startTimeMs (periods entry))"

text \<open>
  The weight table after the loop of \<open>applyBudget\<close> has run over a reweighting:
  \<open>orig\<close> is the table of the input graph, \<open>t\<close> the table being written.
\<close>

definition materialize ::
  "(NodeAddressT \<rightharpoonup> jsnum) \<Rightarrow> Reweighting \<Rightarrow> (NodeAddressT \<rightharpoonup> jsnum) \<Rightarrow> (NodeAddressT \<rightharpoonup> jsnum)" where
  "materialize orig rs t =
     fold (\<lambda>r t'. t'(address r \<mapsto> jmul (orElse (orig (address r)) (Fin 1)) (weight r))) rs t"

text \<open>Kinds of steps.\<close>

fun isEarlyValidation :: "event \<Rightarrow> bool" where
  "isEarlyValidation CheckedPrefixes = True"
| "isEarlyValidation CheckedIntervalLength = True"
| "isEarlyValidation _ = False"



fun isTableWrite :: "event \<Rightarrow> bool" where
  "isTableWrite (SetWeight _) = True"
| "isTableWrite _ = False"

text \<open>
  Every step of the first kind comes before every step of the second kind: from the
  first step of the second kind on, there is no step of the first kind.
\<close>

definition allBefore :: "(event \<Rightarrow> bool) \<Rightarrow> (event \<Rightarrow> bool) \<Rightarrow> event list \<Rightarrow> bool" where
  "allBefore P Q evs = (\<forall>e \<in> set (dropWhile (\<lambda>e. \<not> Q e) evs). \<not> P e)"

section \<open>Notions for the analysis of rounding\<close>

text \<open>
  Below \<open>2^-1022\<close> the binary64 numbers are the multiples of \<open>2^-1074\<close>.
  \<open>on_grid r\<close> holds when \<open>r\<close>, if it is that small, is such a multiple.
\<close>

definition on_grid :: "real \<Rightarrow> bool" where
  "on_grid r \<longleftrightarrow>
     (r < min_normal \<longrightarrow>
        of_int \<lfloor>r / (min_normal / 2 ^ 52)\<rfloor> = r / (min_normal / 2 ^ 52))"

text \<open>
  A value in the normal range and its rounding differ by a factor between
  \<open>1 / (1 + 2^-52)\<close> and \<open>1 + 2^-52\<close>. Two values are within \<open>k\<close>
  roundings of each other when each is at most the other times the \<open>k\<close>-th power
  of that factor.
\<close>

definition ulp_factor :: real where
  "ulp_factor = 1 + 1 / 2 ^ 52"

definition within_roundings :: "nat \<Rightarrow> real \<Rightarrow> real \<Rightarrow> bool" where
  "within_roundings k a b \<longleftrightarrow> a \<le> b * ulp_factor ^ k \<and> b \<le> a * ulp_factor ^ k"

section \<open>Rounding to binary64\<close>

lemma pow2floor_numeral:
  "pow2floor (numeral k) a =
     (if 2 \<le> a then 2 * pow2floor (pred_numeral k) (a / 2)
      else if a < 1 then pow2floor (pred_numeral k) (2 * a) / 2
      else 1)"
  by (simp add: numeral_eq_Suc)

lemma round_even_error: "\<bar>of_int (round_even q) - q\<bar> \<le> 1 / 2"
  unfolding round_even_def Let_def by (auto simp: abs_if) linarith+

lemma round_even_nonneg: "0 \<le> q \<Longrightarrow> 0 \<le> round_even q"
  unfolding round_even_def Let_def by (auto simp: add_nonneg_nonneg)

lemma round_even_le: "q \<le> of_int N \<Longrightarrow> round_even q \<le> N"
proof -
  assume a: "q \<le> of_int N"
  have f: "\<lfloor>q\<rfloor> \<le> N" using a by (simp add: floor_le_iff)
  show ?thesis
  proof (cases "\<lfloor>q\<rfloor> = N")
    case True
    with a have "q - of_int \<lfloor>q\<rfloor> \<le> 0" by simp
    then show ?thesis using True unfolding round_even_def Let_def by auto
  next
    case False
    with f have "\<lfloor>q\<rfloor> + 1 \<le> N" by simp
    then show ?thesis using f unfolding round_even_def Let_def by auto
  qed
qed

lemma pow2floor_pos: "0 < pow2floor n a"
  by (induction n arbitrary: a) auto

lemma pow2floor_bounds:
  "1 / 2 ^ n \<le> a \<Longrightarrow> a < 2 ^ (n + 1) \<Longrightarrow> pow2floor n a \<le> a \<and> a < 2 * pow2floor n a"
proof (induction n arbitrary: a)
  case 0
  then show ?case by simp
next
  case (Suc n)
  show ?case
  proof (cases "2 \<le> a")
    case True
    have "1 / 2 ^ n \<le> a / 2"
    proof -
      have "1 / 2 ^ n \<le> (1::real)" by (simp add: divide_le_eq)
      moreover have "1 \<le> a / 2" using True by simp
      ultimately show ?thesis by linarith
    qed
    moreover have "a / 2 < 2 ^ (n + 1)" using Suc.prems(2) by simp
    ultimately have "pow2floor n (a / 2) \<le> a / 2 \<and> a / 2 < 2 * pow2floor n (a / 2)"
      by (rule Suc.IH)
    with True show ?thesis by simp
  next
    case False
    show ?thesis
    proof (cases "a < 1")
      case True
      have "1 / 2 ^ n \<le> 2 * a" using Suc.prems(1) by (simp add: field_simps)
      moreover have "2 * a < 2 ^ (n + 1)"
      proof -
        have "(2::real) \<le> 2 ^ (n + 1)" by simp
        with True show ?thesis by linarith
      qed
      ultimately have "pow2floor n (2 * a) \<le> 2 * a \<and> 2 * a < 2 * pow2floor n (2 * a)"
        by (rule Suc.IH)
      with True False show ?thesis by simp
    next
      case nl: False
      with False show ?thesis by simp
    qed
  qed
qed

lemma pow2floor_le_1: "a < 2 \<Longrightarrow> pow2floor n a \<le> 1"
proof (induction n arbitrary: a)
  case 0
  then show ?case by simp
next
  case (Suc n)
  show ?case
  proof (cases "a < 1")
    case True
    then have "2 * a < 2" by simp
    then have "pow2floor n (2 * a) \<le> 1" by (rule Suc.IH)
    with True Suc.prems show ?thesis by simp
  next
    case False
    with Suc.prems show ?thesis by simp
  qed
qed

lemma pow2floor_le_half: "a < 1 \<Longrightarrow> pow2floor (Suc n) a \<le> 1 / 2"
  using pow2floor_le_1[of "2 * a" n] by simp

lemmas fl64_eval =
  fl64_def round64_def ulp64_def round_even_def min_normal_def overflow_threshold_def
  pow2floor_numeral Let_def

lemma fl64_0 [simp]: "fl64 0 = Fin 0"
  by (simp add: fl64_eval)

lemma fl64_1 [simp]: "fl64 1 = Fin 1"
  by (simp add: fl64_eval)

lemma min_normal_facts:
  "0 < min_normal" "min_normal \<le> 1" "1 / 2 ^ 1023 \<le> min_normal"
  "min_normal / 2 ^ 52 * 2 ^ 52 = min_normal"
  by (simp_all add: min_normal_def)

lemma overflow_threshold_facts:
  "overflow_threshold = 2 ^ (1023 + 1)" "1 < overflow_threshold"
  by (simp_all add: overflow_threshold_def)

lemma fl64_overflow: "overflow_threshold \<le> x \<Longrightarrow> fl64 x = PInf"
  using overflow_threshold_facts(2) by (simp add: fl64_def)

text \<open>
  The rounding at work: \<open>1e308 + 1e308\<close> is \<open>Infinity\<close>; \<open>2^53 + 1\<close> is \<open>2^53\<close>
  and \<open>2^53 + 3\<close> is \<open>2^53 + 4\<close>, ties going to the even significand; \<open>1 / 10\<close>
  is the binary64 number nearest to one tenth; and half the least subnormal number
  is \<open>0\<close>.
\<close>

lemma binary64_overflow_example:
  "jadd (Fin (10 ^ 308)) (Fin (10 ^ 308)) = PInf"
  by (simp add: fl64_overflow overflow_threshold_def)

lemma binary64_examples:
  "jadd (Fin (2 ^ 53)) (Fin 1) = Fin (2 ^ 53)"
  "jadd (Fin (2 ^ 53)) (Fin 3) = Fin (2 ^ 53 + 4)"
  "jdiv (Fin 1) (Fin 10) = Fin (3602879701896397 / 36028797018963968)"
  "jmul (Fin (1 / 2 ^ 1074)) (Fin (1 / 2)) = Fin 0"
  by (simp_all add: fl64_eval)

lemma ulp64_pos: "0 < ulp64 a"
  using min_normal_facts(1) by (simp add: ulp64_def pow2floor_pos)

lemma round64_nonneg: "0 \<le> a \<Longrightarrow> 0 \<le> round64 a"
  unfolding round64_def
  using ulp64_pos[of a] round_even_nonneg[of "a / ulp64 a"]
  by (simp add: zero_le_mult_iff zero_le_divide_iff less_imp_le)

lemma round64_error: "\<bar>round64 a - a\<bar> \<le> ulp64 a / 2"
proof -
  have u: "0 < ulp64 a" by (rule ulp64_pos)
  have "round64 a - a = (of_int (round_even (a / ulp64 a)) - a / ulp64 a) * ulp64 a"
    using u by (simp add: round64_def field_simps)
  then have "\<bar>round64 a - a\<bar> = \<bar>of_int (round_even (a / ulp64 a)) - a / ulp64 a\<bar> * ulp64 a"
    using u by (simp add: abs_mult)
  also have "\<dots> \<le> (1 / 2) * ulp64 a"
    using round_even_error[of "a / ulp64 a"] u by (intro mult_right_mono) simp_all
  finally show ?thesis by simp
qed

lemma ulp64_normal:
  assumes "min_normal \<le> a" and "a < overflow_threshold"
  shows "ulp64 a * 2 ^ 52 \<le> a" and "a < 2 * (ulp64 a * 2 ^ 52)"
proof -
  from assms(1) min_normal_facts(3) have lo: "1 / 2 ^ 1023 \<le> a" by linarith
  have hi: "a < 2 ^ (1023 + 1)" using assms(2) unfolding overflow_threshold_facts(1) .
  have u: "ulp64 a * 2 ^ 52 = pow2floor 1023 a"
    using assms(1) by (simp add: ulp64_def)
  from pow2floor_bounds[OF lo hi] show "ulp64 a * 2 ^ 52 \<le> a" and "a < 2 * (ulp64 a * 2 ^ 52)"
    unfolding u by blast+
qed

lemma fl64_Fin_cases:
  assumes "fl64 x = Fin r"
  shows "\<bar>x\<bar> < overflow_threshold" and "round64 \<bar>x\<bar> < overflow_threshold"
    and "r = (if x < 0 then - round64 \<bar>x\<bar> else round64 \<bar>x\<bar>)"
  using assms unfolding fl64_def by (auto split: if_splits)

lemma fl64_relative_error:
  assumes "fl64 x = Fin r" and "min_normal \<le> \<bar>x\<bar>"
  shows "\<bar>r - x\<bar> \<le> \<bar>x\<bar> / 2 ^ 53"
proof -
  note c = fl64_Fin_cases[OF assms(1)]
  have "\<bar>r - x\<bar> = \<bar>round64 \<bar>x\<bar> - \<bar>x\<bar>\<bar>"
    unfolding c(3) by (cases "x < 0") simp_all
  also have "\<dots> \<le> ulp64 \<bar>x\<bar> / 2" by (rule round64_error)
  also have "\<dots> \<le> \<bar>x\<bar> / 2 ^ 53"
  proof -
    from ulp64_normal(1)[OF assms(2) c(1)] have "ulp64 \<bar>x\<bar> * 2 ^ 52 \<le> \<bar>x\<bar>" .
    then have "ulp64 \<bar>x\<bar> \<le> \<bar>x\<bar> / 2 ^ 52" by (simp add: field_simps)
    then have "ulp64 \<bar>x\<bar> / 2 \<le> \<bar>x\<bar> / 2 ^ 52 / 2" by simp
    also have "\<bar>x\<bar> / 2 ^ 52 / 2 = \<bar>x\<bar> / 2 ^ 53" by simp
    finally show ?thesis .
  qed
  finally show ?thesis .
qed

lemma fl64_nonneg: "0 \<le> x \<Longrightarrow> jle (Fin 0) (fl64 x)"
  using round64_nonneg[of "\<bar>x\<bar>"] by (simp add: fl64_def)

lemma round64_le_1:
  assumes "0 \<le> a" and "a < 1"
  shows "round64 a \<le> 1"
proof -
  have u: "0 < ulp64 a" by (rule ulp64_pos)
  have "\<exists>k::nat. 1 / ulp64 a = 2 ^ k"
  proof (cases "a < min_normal")
    case True
    then have "1 / ulp64 a = 2 ^ (1022 + 52)"
      unfolding ulp64_def min_normal_def power_add by simp
    then show ?thesis by blast
  next
    case False
    have "\<exists>k::nat. k \<le> n \<and> 1 / pow2floor n b = 2 ^ k" if "1 / 2 ^ n \<le> b" "b < 1" for n b
      using that
    proof (induction n arbitrary: b)
      case 0
      then show ?case by simp
    next
      case (Suc n)
      show ?case
      proof (cases "2 * b < 1")
        case True
        have "1 / 2 ^ n \<le> 2 * b" using Suc.prems(1) by (simp add: field_simps)
        from Suc.IH[OF this True] obtain k where k: "k \<le> n" "1 / pow2floor n (2 * b) = 2 ^ k"
          by blast
        have "1 / pow2floor (Suc n) b = 2 * (1 / pow2floor n (2 * b))"
          using Suc.prems(2) by simp
        also have "\<dots> = 2 ^ (Suc k)" using k(2) by simp
        finally show ?thesis using k(1) by (intro exI[of _ "Suc k"]) simp
      next
        case False
        then have "1 \<le> 2 * b" "2 * b < 2" using Suc.prems(2) by simp_all
        then have "pow2floor n (2 * b) = 1" by (cases n) simp_all
        then have "1 / pow2floor (Suc n) b = 2 ^ 1" using Suc.prems(2) by simp
        then show ?thesis by (intro exI[of _ 1]) simp
      qed
    qed
    moreover have "1 / 2 ^ 1023 \<le> a" using False min_normal_facts(3) by linarith
    ultimately obtain k :: nat where "1 / pow2floor 1023 a = 2 ^ k"
      using assms(2) by blast
    then have "1 / ulp64 a = 2 ^ (k + 52)"
      using False unfolding ulp64_def power_add by (simp)
    then show ?thesis by blast
  qed
  then obtain k :: nat where k: "1 / ulp64 a = 2 ^ k" by blast
  have "a / ulp64 a \<le> 1 / ulp64 a"
    using assms(2) u by (simp add: divide_le_cancel)
  also have "\<dots> = of_int (2 ^ k)" using k by simp
  finally have "round_even (a / ulp64 a) \<le> 2 ^ k" by (rule round_even_le)
  then have "(of_int (round_even (a / ulp64 a)) :: real) \<le> of_int (2 ^ k)"
    by (simp only: of_int_le_iff)
  then have "of_int (round_even (a / ulp64 a)) \<le> 1 / ulp64 a" using k by simp
  then have "of_int (round_even (a / ulp64 a)) * ulp64 a \<le> 1"
    using u by (simp add: field_simps)
  then show ?thesis by (simp add: round64_def)
qed

lemma fl64_le_1: "0 \<le> x \<Longrightarrow> x < 1 \<Longrightarrow> jle (fl64 x) (Fin 1)"
  using round64_le_1[of x] overflow_threshold_facts(2)
  by (simp add: fl64_def)

lemma on_grid_iff:
  "on_grid r \<longleftrightarrow> (r < min_normal \<longrightarrow> (\<exists>k::int. r = of_int k * (min_normal / 2 ^ 52)))"
proof -
  have g: "0 < min_normal / 2 ^ 52" using min_normal_facts(1) by simp
  have "(\<exists>k::int. r / (min_normal / 2 ^ 52) = of_int k)
      \<longleftrightarrow> (\<exists>k::int. r = of_int k * (min_normal / 2 ^ 52))"
    using g by (simp add: divide_eq_eq)
  then show ?thesis unfolding on_grid_def of_int_floor_cancel by simp
qed

lemma round_even_of_int: "round_even (of_int k) = k"
  by (simp add: round_even_def)

lemma round_even_ge: "of_int N \<le> q \<Longrightarrow> N \<le> round_even q"
proof -
  assume "of_int N \<le> q"
  then have "N \<le> \<lfloor>q\<rfloor>" by (simp add: le_floor_iff)
  then show ?thesis unfolding round_even_def Let_def by auto
qed

lemma pow2floor_ge: "1 / 2 ^ k \<le> a \<Longrightarrow> k \<le> n \<Longrightarrow> 1 / 2 ^ k \<le> pow2floor n a"
proof (induction n arbitrary: a k)
  case 0
  then show ?case by simp
next
  case (Suc n)
  have k1: "1 / 2 ^ k \<le> (1::real)" by (simp add: divide_le_eq)
  show ?case
  proof (cases "2 \<le> a")
    case True
    have "1 / 2 ^ 0 \<le> a / 2" using True by simp
    then have "1 / 2 ^ 0 \<le> pow2floor n (a / 2)" by (rule Suc.IH) simp
    then have "1 \<le> pow2floor n (a / 2)" by simp
    then have "1 / 2 ^ k \<le> 2 * pow2floor n (a / 2)" using k1 by linarith
    with True show ?thesis by simp
  next
    case False
    show ?thesis
    proof (cases "a < 1")
      case True
      with Suc.prems(1) k1 have "k \<noteq> 0" by (cases k) auto
      then obtain k' where k: "k = Suc k'" by (cases k) auto
      have "1 / 2 ^ k' \<le> 2 * a" using Suc.prems(1) unfolding k by (simp add: field_simps)
      moreover have "k' \<le> n" using Suc.prems(2) k by simp
      ultimately have "1 / 2 ^ k' \<le> pow2floor n (2 * a)" by (rule Suc.IH)
      with True show ?thesis unfolding k by (simp add: field_simps)
    next
      case nl: False
      with False k1 show ?thesis by simp
    qed
  qed
qed

lemma round64_ge_min_normal:
  assumes "min_normal \<le> a" and "a < overflow_threshold"
  shows "min_normal \<le> round64 a"
proof -
  have u: "0 < ulp64 a" by (rule ulp64_pos)
  have "1 / 2 ^ 1022 \<le> pow2floor 1023 a"
    using assms(1) by (intro pow2floor_ge) (simp_all add: min_normal_def)
  then have p: "min_normal \<le> ulp64 a * 2 ^ 52"
    using assms(1) by (simp add: ulp64_def min_normal_def)
  from ulp64_normal(1)[OF assms] have "of_int (2 ^ 52) \<le> a / ulp64 a"
    using u by (simp add: le_divide_eq)
  then have "2 ^ 52 \<le> round_even (a / ulp64 a)" by (rule round_even_ge)
  then have "(of_int (2 ^ 52) :: real) \<le> of_int (round_even (a / ulp64 a))"
    by (simp only: of_int_le_iff)
  then have "2 ^ 52 * ulp64 a \<le> of_int (round_even (a / ulp64 a)) * ulp64 a"
    using u by (intro mult_right_mono) simp_all
  with p show ?thesis by (simp add: round64_def mult.commute)
qed

lemma round64_on_grid:
  assumes "0 \<le> a" and "a < overflow_threshold"
  shows "on_grid (round64 a)"
proof (cases "a < min_normal")
  case True
  then have "round64 a = of_int (round_even (a / ulp64 a)) * (min_normal / 2 ^ 52)"
    by (simp add: round64_def ulp64_def)
  then show ?thesis unfolding on_grid_iff by blast
next
  case False
  then have "min_normal \<le> round64 a"
    using assms(2) by (intro round64_ge_min_normal) simp_all
  then show ?thesis unfolding on_grid_iff by simp
qed

lemma fl64_nonneg_cases:
  assumes "0 \<le> z" and "fl64 z = Fin r"
  shows "r = round64 z" and "z < overflow_threshold" and "0 \<le> r"
  using assms fl64_Fin_cases[OF assms(2)] round64_nonneg[of z] by simp_all

lemma fl64_on_grid: "0 \<le> z \<Longrightarrow> fl64 z = Fin r \<Longrightarrow> on_grid r"
  using fl64_nonneg_cases[of z r] round64_on_grid[of z] by simp

lemma isDouble_on_grid: "isDouble (Fin v) \<Longrightarrow> 0 \<le> v \<Longrightarrow> on_grid v"
  using fl64_on_grid[of v v] by (simp add: isDouble_def)

lemma on_grid_0: "on_grid 0"
  unfolding on_grid_iff by (intro impI exI[of _ 0]) simp

lemma add_subnormal_exact:
  assumes "on_grid s" "on_grid v" "0 \<le> s" "0 \<le> v" "s + v < min_normal"
  shows "fl64 (s + v) = Fin (s + v)"
proof -
  from assms have "s < min_normal" "v < min_normal" by simp_all
  with assms(1,2) obtain i j :: int where
    s: "s = of_int i * (min_normal / 2 ^ 52)" and v: "v = of_int j * (min_normal / 2 ^ 52)"
    unfolding on_grid_iff by blast
  have g: "0 < min_normal / 2 ^ 52" using min_normal_facts(1) by simp
  have u: "ulp64 (s + v) = min_normal / 2 ^ 52" using assms(5) by (simp add: ulp64_def)
  have "s + v = of_int (i + j) * (min_normal / 2 ^ 52)"
    unfolding s v by (simp add: distrib_right)
  then have "(s + v) / ulp64 (s + v) = of_int (i + j)"
    unfolding u using g by simp
  then have "round64 (s + v) = of_int (i + j) * (min_normal / 2 ^ 52)"
    unfolding round64_def u by (simp only: round_even_of_int)
  then have r: "round64 (s + v) = s + v" unfolding s v by (simp add: distrib_right)
  have "s + v < overflow_threshold"
    using assms(5) min_normal_facts(2) overflow_threshold_facts(2) by linarith
  then show ?thesis using assms(3,4) r by (simp add: fl64_def)
qed

lemma fl64_add_error:
  assumes "on_grid s" "on_grid v" "0 \<le> s" "0 \<le> v" "fl64 (s + v) = Fin r"
  shows "\<bar>r - (s + v)\<bar> \<le> (s + v) / 2 ^ 53"
proof (cases "s + v < min_normal")
  case True
  from add_subnormal_exact[OF assms(1-4) True] assms(5) have "r = s + v" by simp
  then show ?thesis using assms(3,4) by simp
next
  case False
  then have "min_normal \<le> \<bar>s + v\<bar>" using assms(3,4) by simp
  from fl64_relative_error[OF assms(5) this] show ?thesis using assms(3,4) by simp
qed

lemma ulp_factor_ge_1: "1 \<le> ulp_factor"
  by (simp add: ulp_factor_def)

lemma ulp_factor_power: "1 \<le> ulp_factor ^ k" "0 < ulp_factor ^ k"
proof -
  show "1 \<le> ulp_factor ^ k" using ulp_factor_ge_1 by (rule one_le_power)
  then show "0 < ulp_factor ^ k" by linarith
qed

lemma within_roundings_refl: "within_roundings 0 a a"
  by (simp add: within_roundings_def)

lemma within_roundings_sym: "within_roundings k a b \<Longrightarrow> within_roundings k b a"
  by (simp add: within_roundings_def)

lemma within_roundings_mono:
  assumes "within_roundings k a b" "k \<le> k'" "0 \<le> a" "0 \<le> b"
  shows "within_roundings k' a b"
proof -
  have "ulp_factor ^ k \<le> ulp_factor ^ k'"
    using ulp_factor_ge_1 assms(2) by (rule power_increasing[rotated])
  then have "b * ulp_factor ^ k \<le> b * ulp_factor ^ k'"
    and "a * ulp_factor ^ k \<le> a * ulp_factor ^ k'"
    using assms(3,4) by (simp_all add: mult_left_mono)
  with assms(1) show ?thesis unfolding within_roundings_def by linarith
qed

lemma within_roundings_trans:
  assumes "within_roundings i a b" "within_roundings j b c"
  shows "within_roundings (i + j) a c"
proof -
  from assms have ab: "a \<le> b * ulp_factor ^ i" and ba: "b \<le> a * ulp_factor ^ i"
    and bc: "b \<le> c * ulp_factor ^ j" and cb: "c \<le> b * ulp_factor ^ j"
    by (simp_all add: within_roundings_def)
  have "b * ulp_factor ^ i \<le> (c * ulp_factor ^ j) * ulp_factor ^ i"
    using bc ulp_factor_power(2)[of i] by (intro mult_right_mono) simp_all
  with ab have "a \<le> (c * ulp_factor ^ j) * ulp_factor ^ i" by (rule order_trans)
  then have 1: "a \<le> c * ulp_factor ^ (i + j)" by (simp add: power_add mult_ac)
  have "b * ulp_factor ^ j \<le> (a * ulp_factor ^ i) * ulp_factor ^ j"
    using ba ulp_factor_power(2)[of j] by (intro mult_right_mono) simp_all
  with cb have "c \<le> (a * ulp_factor ^ i) * ulp_factor ^ j" by (rule order_trans)
  then have 2: "c \<le> a * ulp_factor ^ (i + j)" by (simp add: power_add mult_ac)
  from 1 2 show ?thesis by (simp add: within_roundings_def)
qed

lemma within_roundings_plus:
  assumes "within_roundings k a b" "within_roundings k c d"
  shows "within_roundings k (a + c) (b + d)"
  using assms by (simp add: within_roundings_def distrib_right)

lemma within_roundings_add_const:
  assumes "within_roundings k a b" "0 \<le> c"
  shows "within_roundings k (a + c) (b + c)"
proof -
  have "c \<le> c * ulp_factor ^ k"
    using assms(2) ulp_factor_power(1)[of k] by (simp add: mult_le_cancel_left1)
  with assms(1) show ?thesis by (simp add: within_roundings_def distrib_right)
qed

lemma within_roundings_mult:
  assumes "within_roundings i a b" "within_roundings j c d" "0 \<le> a" "0 \<le> b" "0 \<le> c" "0 \<le> d"
  shows "within_roundings (i + j) (a * c) (b * d)"
proof -
  from assms have ab: "a \<le> b * ulp_factor ^ i" and ba: "b \<le> a * ulp_factor ^ i"
    and cd: "c \<le> d * ulp_factor ^ j" and dc: "d \<le> c * ulp_factor ^ j"
    by (simp_all add: within_roundings_def)
  have "a * c \<le> (b * ulp_factor ^ i) * (d * ulp_factor ^ j)"
    using ab cd assms(3,5) by (rule mult_mono')
  then have 1: "a * c \<le> (b * d) * ulp_factor ^ (i + j)" by (simp add: power_add mult_ac)
  have "b * d \<le> (a * ulp_factor ^ i) * (c * ulp_factor ^ j)"
    using ba dc assms(4,6) by (rule mult_mono')
  then have 2: "b * d \<le> (a * c) * ulp_factor ^ (i + j)" by (simp add: power_add mult_ac)
  from 1 2 show ?thesis by (simp add: within_roundings_def)
qed

lemma within_roundings_of_error:
  assumes "0 \<le> z" and "\<bar>r - z\<bar> \<le> z / 2 ^ 53"
  shows "within_roundings 1 z r"
proof -
  from assms(2) have lo: "z - z / 2 ^ 53 \<le> r" and hi: "r \<le> z + z / 2 ^ 53" by linarith+
  have "z + z / 2 ^ 53 \<le> z * (1 + 1 / 2 ^ 52)"
    using assms(1) by (simp add: distrib_left)
  with hi have 1: "r \<le> z * (1 + 1 / 2 ^ 52)" by linarith
  have "z \<le> (z - z / 2 ^ 53) * (1 + 1 / 2 ^ 52)"
  proof -
    have "(z - z / 2 ^ 53) * (1 + 1 / 2 ^ 52) = z * ((1 - 1 / 2 ^ 53) * (1 + 1 / 2 ^ 52))"
      by (simp add: algebra_simps)
    moreover have "1 \<le> ((1 - 1 / 2 ^ 53) * (1 + 1 / 2 ^ 52) :: real)" by simp
    ultimately show ?thesis using assms(1) by (simp add: mult_le_cancel_left1)
  qed
  also have "\<dots> \<le> r * (1 + 1 / 2 ^ 52)"
    using lo by (intro mult_right_mono) simp_all
  finally have 2: "z \<le> r * (1 + 1 / 2 ^ 52)" .
  from 1 2 show ?thesis unfolding within_roundings_def ulp_factor_def by simp
qed

lemma within_roundings_abs:
  assumes "within_roundings k y t" and "0 \<le> y"
  shows "\<bar>t - y\<bar> \<le> y * (ulp_factor ^ k - 1)"
proof -
  define K where "K = ulp_factor ^ k"
  from assms(1) have yt: "y \<le> t * K" and ty: "t \<le> y * K" by (simp_all add: within_roundings_def K_def)
  have K: "1 \<le> K" "0 < K" unfolding K_def by (rule ulp_factor_power)+
  have hi: "t - y \<le> y * (K - 1)" using ty by (simp add: algebra_simps)
  have "y / K \<le> t" using yt K(2) by (simp add: divide_le_eq)
  then have "y - t \<le> y - y / K" by linarith
  also have "\<dots> = (y / K) * (K - 1)"
    using K(2) by (simp add: field_simps)
  also have "\<dots> \<le> y * (K - 1)"
  proof (rule mult_right_mono)
    show "y / K \<le> y" using assms(2) K by (simp add: divide_le_eq mult_le_cancel_left1)
    show "0 \<le> K - 1" using K by simp
  qed
  finally have lo: "y - t \<le> y * (K - 1)" .
  from lo hi show ?thesis unfolding K_def by (simp add: abs_le_iff)
qed

lemma fl64_nonneg_range:
  "0 \<le> z \<Longrightarrow> fl64 z = PInf \<or> (\<exists>r. fl64 z = Fin r)"
  by (simp add: fl64_def)


section \<open>Prefix conflicts: what the loops decide\<close>

lemma hasPrefix_refl: "hasPrefix a a"
  by (induction a) auto

lemma ex_from_next:
  fixes j :: nat
  assumes "\<not> P j"
  shows "(\<exists>k. j + 1 \<le> k \<and> P k) \<longleftrightarrow> (\<exists>k. j \<le> k \<and> P k)"
proof
  assume "\<exists>k. j + 1 \<le> k \<and> P k"
  then obtain k where "j + 1 \<le> k" "P k" by blast
  then have "j \<le> k \<and> P k" by simp
  then show "\<exists>k. j \<le> k \<and> P k" by blast
next
  assume "\<exists>k. j \<le> k \<and> P k"
  then obtain k where k: "j \<le> k" "P k" by blast
  with assms have "k \<noteq> j" by blast
  with k have "j + 1 \<le> k \<and> P k" by simp
  then show "\<exists>k. j + 1 \<le> k \<and> P k" by blast
qed

lemma anyCommonPrefixes_inner_iff:
  "anyCommonPrefixes_inner as i j \<longleftrightarrow>
     (\<exists>k. j \<le> k \<and> k < length as \<and> k \<noteq> i \<and>
          (hasPrefix (as ! i) (as ! k) \<or> hasPrefix (as ! k) (as ! i)))"
proof (induction as i j rule: anyCommonPrefixes_inner.induct)
  case (1 as i j)
  show ?case
  proof (cases "j < length as")
    case False
    then show ?thesis by (subst anyCommonPrefixes_inner.simps) auto
  next
    case jl: True
    show ?thesis
    proof (cases "i = j")
      case True
      have "anyCommonPrefixes_inner as i j = anyCommonPrefixes_inner as i (j + 1)"
        using jl True by (subst anyCommonPrefixes_inner.simps) simp
      also have "\<dots> \<longleftrightarrow> (\<exists>k. j + 1 \<le> k \<and> k < length as \<and> k \<noteq> i \<and>
          (hasPrefix (as ! i) (as ! k) \<or> hasPrefix (as ! k) (as ! i)))"
        using "1.IH"(1)[OF jl True] .
      also have "\<dots> \<longleftrightarrow> (\<exists>k. j \<le> k \<and> k < length as \<and> k \<noteq> i \<and>
          (hasPrefix (as ! i) (as ! k) \<or> hasPrefix (as ! k) (as ! i)))"
        using True by (intro ex_from_next) simp
      finally show ?thesis .
    next
      case ne: False
      show ?thesis
      proof (cases "hasPrefix (as ! i) (as ! j) \<or> hasPrefix (as ! j) (as ! i)")
        case True
        then have "anyCommonPrefixes_inner as i j"
          using jl ne by (subst anyCommonPrefixes_inner.simps) auto
        moreover have "\<exists>k. j \<le> k \<and> k < length as \<and> k \<noteq> i \<and>
          (hasPrefix (as ! i) (as ! k) \<or> hasPrefix (as ! k) (as ! i))"
          using True jl ne by (intro exI[of _ j]) auto
        ultimately show ?thesis by simp
      next
        case np: False
        have "anyCommonPrefixes_inner as i j = anyCommonPrefixes_inner as i (j + 1)"
          using jl ne np by (subst anyCommonPrefixes_inner.simps) simp
        also have "\<dots> \<longleftrightarrow> (\<exists>k. j + 1 \<le> k \<and> k < length as \<and> k \<noteq> i \<and>
          (hasPrefix (as ! i) (as ! k) \<or> hasPrefix (as ! k) (as ! i)))"
          using "1.IH"(2)[OF jl ne] np by simp
        also have "\<dots> \<longleftrightarrow> (\<exists>k. j \<le> k \<and> k < length as \<and> k \<noteq> i \<and>
          (hasPrefix (as ! i) (as ! k) \<or> hasPrefix (as ! k) (as ! i)))"
          using np by (intro ex_from_next) simp
        finally show ?thesis .
      qed
    qed
  qed
qed

lemma anyCommonPrefixes_outer_iff:
  "anyCommonPrefixes_outer as i \<longleftrightarrow>
     (\<exists>m k. i \<le> m \<and> m < k \<and> k < length as \<and>
          (hasPrefix (as ! m) (as ! k) \<or> hasPrefix (as ! k) (as ! m)))"
proof (induction as i rule: anyCommonPrefixes_outer.induct)
  case (1 as i)
  show ?case
  proof (cases "i < length as")
    case False
    then show ?thesis by (subst anyCommonPrefixes_outer.simps) auto
  next
    case il: True
    have inner: "anyCommonPrefixes_inner as i i \<longleftrightarrow>
      (\<exists>k. i < k \<and> k < length as \<and> (hasPrefix (as ! i) (as ! k) \<or> hasPrefix (as ! k) (as ! i)))"
      unfolding anyCommonPrefixes_inner_iff by (auto simp: le_less)
    show ?thesis
    proof (cases "anyCommonPrefixes_inner as i i")
      case True
      then have "anyCommonPrefixes_outer as i"
        using il by (subst anyCommonPrefixes_outer.simps) simp
      moreover from True inner have "\<exists>m k. i \<le> m \<and> m < k \<and> k < length as \<and>
          (hasPrefix (as ! m) (as ! k) \<or> hasPrefix (as ! k) (as ! m))"
        by (meson order_refl)
      ultimately show ?thesis by simp
    next
      case False
      have "anyCommonPrefixes_outer as i = anyCommonPrefixes_outer as (i + 1)"
        using il False by (subst anyCommonPrefixes_outer.simps) simp
      also have "\<dots> \<longleftrightarrow> (\<exists>m k. i + 1 \<le> m \<and> m < k \<and> k < length as \<and>
          (hasPrefix (as ! m) (as ! k) \<or> hasPrefix (as ! k) (as ! m)))"
        using "1.IH"[OF il] False by simp
      also have "\<dots> \<longleftrightarrow> (\<exists>m k. i \<le> m \<and> m < k \<and> k < length as \<and>
          (hasPrefix (as ! m) (as ! k) \<or> hasPrefix (as ! k) (as ! m)))"
      proof -
        have "\<not> (\<exists>k. i < k \<and> k < length as \<and>
          (hasPrefix (as ! i) (as ! k) \<or> hasPrefix (as ! k) (as ! i)))"
          using False inner by simp
        from ex_from_next[where P = "\<lambda>m. \<exists>k. m < k \<and> k < length as \<and>
          (hasPrefix (as ! m) (as ! k) \<or> hasPrefix (as ! k) (as ! m))", OF this]
        show ?thesis by simp
      qed
      finally show ?thesis .
    qed
  qed
qed

lemma anyCommonPrefixes_iff_lt:
  "anyCommonPrefixes as \<longleftrightarrow>
     (\<exists>m k. m < k \<and> k < length as \<and>
          (hasPrefix (as ! m) (as ! k) \<or> hasPrefix (as ! k) (as ! m)))"
  by (simp add: anyCommonPrefixes_def anyCommonPrefixes_outer_iff)

lemma anyCommonPrefixes_iff_neq:
  "anyCommonPrefixes as \<longleftrightarrow>
     (\<exists>i j. i < length as \<and> j < length as \<and> i \<noteq> j \<and>
          (hasPrefix (as ! i) (as ! j) \<or> hasPrefix (as ! j) (as ! i)))"
proof -
  have "(\<exists>i j. i < length as \<and> j < length as \<and> i \<noteq> j \<and>
          (hasPrefix (as ! i) (as ! j) \<or> hasPrefix (as ! j) (as ! i)))
     \<longleftrightarrow> (\<exists>m k. m < k \<and> k < length as \<and>
          (hasPrefix (as ! m) (as ! k) \<or> hasPrefix (as ! k) (as ! m)))" (is "?L \<longleftrightarrow> ?R")
  proof
    assume ?L
    then obtain i j where ij: "i < length as" "j < length as" "i \<noteq> j"
      "hasPrefix (as ! i) (as ! j) \<or> hasPrefix (as ! j) (as ! i)" by blast
    show ?R
    proof (cases "i < j")
      case True
      with ij show ?thesis by blast
    next
      case False
      with ij have "j < i" by simp
      with ij show ?thesis by blast
    qed
  next
    assume ?R
    then obtain m k where "m < k" "k < length as"
      "hasPrefix (as ! m) (as ! k) \<or> hasPrefix (as ! k) (as ! m)" by blast
    then have "m < length as \<and> k < length as \<and> m \<noteq> k \<and>
      (hasPrefix (as ! m) (as ! k) \<or> hasPrefix (as ! k) (as ! m))" by simp
    then show ?L by blast
  qed
  then show ?thesis unfolding anyCommonPrefixes_iff_lt by simp
qed

lemma anyCommonPrefixes_iff_set:
  "anyCommonPrefixes as \<longleftrightarrow>
     \<not> distinct as \<or>
     (\<exists>a\<in>set as. \<exists>b\<in>set as. a \<noteq> b \<and> (hasPrefix a b \<or> hasPrefix b a))"
proof
  assume "anyCommonPrefixes as"
  then obtain i j where ij: "i < length as" "j < length as" "i \<noteq> j"
    "hasPrefix (as ! i) (as ! j) \<or> hasPrefix (as ! j) (as ! i)"
    unfolding anyCommonPrefixes_iff_neq by blast
  show "\<not> distinct as \<or>
     (\<exists>a\<in>set as. \<exists>b\<in>set as. a \<noteq> b \<and> (hasPrefix a b \<or> hasPrefix b a))"
  proof (cases "as ! i = as ! j")
    case True
    with ij have "\<not> distinct as" by (auto simp: distinct_conv_nth)
    then show ?thesis by simp
  next
    case False
    with ij show ?thesis by (meson nth_mem)
  qed
next
  assume r: "\<not> distinct as \<or>
     (\<exists>a\<in>set as. \<exists>b\<in>set as. a \<noteq> b \<and> (hasPrefix a b \<or> hasPrefix b a))"
  show "anyCommonPrefixes as"
  proof (cases "distinct as")
    case False
    then obtain i j where "i < length as" "j < length as" "i \<noteq> j" "as ! i = as ! j"
      by (auto simp: distinct_conv_nth)
    then show ?thesis
      unfolding anyCommonPrefixes_iff_neq using hasPrefix_refl by metis
  next
    case True
    with r obtain a b where ab: "a \<in> set as" "b \<in> set as" "a \<noteq> b" "hasPrefix a b \<or> hasPrefix b a"
      by blast
    then obtain i j where "i < length as" "as ! i = a" "j < length as" "as ! j = b"
      by (meson in_set_conv_nth)
    with ab show ?thesis
      unfolding anyCommonPrefixes_iff_neq by blast
  qed
qed

text \<open>
  C7: \<open>_anyCommonPrefixes\<close> returns true if and only if there are two different
  indices \<open>i\<close> and \<open>j\<close> such that one of \<open>addresses[i]\<close>, \<open>addresses[j]\<close> is a prefix
  of the other. In particular it is false on the empty list, and true on \<open>[x, x]\<close>
  for every address \<open>x\<close>.
\<close>

theorem anyCommonPrefixes_iff_pair:
  "anyCommonPrefixes as =
     (\<exists>i j. i < length as \<and> j < length as \<and> i \<noteq> j \<and>
          (hasPrefix (as ! i) (as ! j) \<or> hasPrefix (as ! j) (as ! i)))
   \<and> \<not> anyCommonPrefixes []
   \<and> anyCommonPrefixes [x, x]"
proof (intro conjI)
  show "anyCommonPrefixes as =
     (\<exists>i j. i < length as \<and> j < length as \<and> i \<noteq> j \<and>
          (hasPrefix (as ! i) (as ! j) \<or> hasPrefix (as ! j) (as ! i)))"
    by (rule anyCommonPrefixes_iff_neq)
  show "\<not> anyCommonPrefixes []"
    by (simp add: anyCommonPrefixes_iff_set)
  show "anyCommonPrefixes [x, x]"
    by (simp add: anyCommonPrefixes_iff_set)
qed

text \<open>
  C6: \<open>_anyCommonPrefixes\<close> returns the same boolean on a list of addresses and on
  every permutation of it.
\<close>

theorem anyCommonPrefixes_permutation:
  "mset as = mset bs \<Longrightarrow> anyCommonPrefixes as = anyCommonPrefixes bs"
  unfolding anyCommonPrefixes_iff_set
  using mset_eq_setD[of as bs] mset_eq_imp_distinct_iff[of as bs] by simp

theorem anyCommonPrefixes_permutation_witness:
  "anyCommonPrefixes [[], [''foo'']] = anyCommonPrefixes [[''foo''], []]
   \<and> anyCommonPrefixes [[''bar''], [''foo''], [''bar'', ''x'']] =
     anyCommonPrefixes [[''bar'', ''x''], [''bar''], [''foo'']]"
proof -
  have a: "mset [[], [''foo'']] = mset [[''foo''], ([] :: string list)]"
    by simp
  have b: "mset [[''bar''], [''foo''], [''bar'', ''x'']] =
      mset [[''bar'', ''x''], [''bar''], [''foo'']]"
    by simp
  show ?thesis
    using anyCommonPrefixes_permutation[OF a] anyCommonPrefixes_permutation[OF b] by simp
qed

section \<open>The budget of a timestamp: what the loop returns\<close>

lemma jle_trans: "jle a b \<Longrightarrow> jle b c \<Longrightarrow> jle a c"
  by (cases a; cases b; cases c) auto

lemma findCurrentBudget_loop_takeWhile:
  "- 1 \<le> k \<Longrightarrow>
   findCurrentBudget_loop ps t k cb =
     (if takeWhile (\<lambda>p. jle (startTimeMs p) t) (drop (nat (k + 1)) ps) = [] then cb
      else budget (last (takeWhile (\<lambda>p. jle (startTimeMs p) t) (drop (nat (k + 1)) ps))))"
proof (induction ps t k cb rule: findCurrentBudget_loop.induct)
  case (1 ps t k cb)
  let ?n = "nat (k + 1)"
  let ?P = "\<lambda>p. jle (startTimeMs p) t"
  show ?case
  proof (cases "k + 1 < int (length ps) \<and> ?P (ps ! ?n)")
    case True
    then have n: "?n < length ps" using "1.prems" by linarith
    have step: "findCurrentBudget_loop ps t k cb =
        findCurrentBudget_loop ps t (k + 1) (budget (ps ! ?n))"
      using True by (subst findCurrentBudget_loop.simps) simp
    have suc: "nat (k + 1 + 1) = Suc ?n" using "1.prems" by linarith
    have dr: "drop ?n ps = ps ! ?n # drop (Suc ?n) ps"
      using n by (simp add: Cons_nth_drop_Suc)
    have ih: "findCurrentBudget_loop ps t (k + 1) (budget (ps ! ?n)) =
       (if takeWhile ?P (drop (Suc ?n) ps) = [] then budget (ps ! ?n)
        else budget (last (takeWhile ?P (drop (Suc ?n) ps))))"
      using "1.IH"[OF True] "1.prems" suc by simp
    show ?thesis
      unfolding step ih dr using True by simp
  next
    case False
    have stop: "findCurrentBudget_loop ps t k cb = cb"
      using False by (subst findCurrentBudget_loop.simps) auto
    show ?thesis
    proof (cases "?n < length ps")
      case True
      then have "\<not> ?P (ps ! ?n)" using False "1.prems" by auto
      then have "takeWhile ?P (drop ?n ps) = []"
        using True by (simp add: Cons_nth_drop_Suc[symmetric])
      then show ?thesis using stop by simp
    next
      case False
      then show ?thesis using stop by simp
    qed
  qed
qed

lemma findCurrentBudget_takeWhile:
  "findCurrentBudget ps t =
     (if takeWhile (\<lambda>p. jle (startTimeMs p) t) ps = [] then PInf
      else budget (last (takeWhile (\<lambda>p. jle (startTimeMs p) t) ps)))"
  unfolding findCurrentBudget_def
  by (subst findCurrentBudget_loop_takeWhile) simp_all

lemma successively_jle_nth:
  assumes "successively (\<lambda>p q. jle (startTimeMs p) (startTimeMs q)) ps"
    and "i < j" "j < length ps"
  shows "jle (startTimeMs (ps ! i)) (startTimeMs (ps ! j))"
proof -
  have "transp (\<lambda>p q. jle (startTimeMs p) (startTimeMs q))"
    by (rule transpI) (erule jle_trans)
  from successively_conv_sorted_wrt[OF this] assms(1)
  have "sorted_wrt (\<lambda>p q. jle (startTimeMs p) (startTimeMs q)) ps"
    by blast
  then show ?thesis using assms(2,3) by (rule sorted_wrt_nth_less)
qed

text \<open>
  C3: for periods that are non-decreasing by \<open>startTimeMs\<close> and every timestamp,
  \<open>_findCurrentBudget\<close> returns the budget of the period of the latest index whose
  \<open>startTimeMs\<close> is at most the timestamp, so that among qualifying periods with the
  same start the later one wins; when no period qualifies (the list is empty, or
  every period starts after the timestamp) it returns positive infinity.
\<close>

theorem findCurrentBudget_latest_started:
  assumes sorted: "successively (\<lambda>p q. jle (startTimeMs p) (startTimeMs q)) ps"
  shows "(\<forall>i. i < length ps \<and> jle (startTimeMs (ps ! i)) t \<and>
              (\<forall>j. i < j \<and> j < length ps \<longrightarrow> \<not> jle (startTimeMs (ps ! j)) t)
            \<longrightarrow> findCurrentBudget ps t = budget (ps ! i))
       \<and> ((\<forall>i. i < length ps \<longrightarrow> \<not> jle (startTimeMs (ps ! i)) t)
            \<longrightarrow> findCurrentBudget ps t = PInf)"
proof (intro conjI allI impI)
  fix i
  assume a: "i < length ps \<and> jle (startTimeMs (ps ! i)) t \<and>
              (\<forall>j. i < j \<and> j < length ps \<longrightarrow> \<not> jle (startTimeMs (ps ! j)) t)"
  let ?P = "\<lambda>p. jle (startTimeMs p) t"
  have below: "?P (ps ! k)" if "k < Suc i" for k
  proof (cases "k = i")
    case True
    with a show ?thesis by simp
  next
    case False
    with that have "k < i" by simp
    with sorted a have "jle (startTimeMs (ps ! k)) (startTimeMs (ps ! i))"
      by (intro successively_jle_nth) auto
    with a show ?thesis by (blast intro: jle_trans)
  qed
  have "takeWhile ?P ps = take (Suc i) ps"
    using below a by (intro takeWhile_eq_take_P_nth) auto
  moreover have "take (Suc i) ps = take i ps @ [ps ! i]"
    using a by (simp add: take_Suc_conv_app_nth)
  ultimately show "findCurrentBudget ps t = budget (ps ! i)"
    unfolding findCurrentBudget_takeWhile by simp
next
  assume none: "\<forall>i. i < length ps \<longrightarrow> \<not> jle (startTimeMs (ps ! i)) t"
  have "takeWhile (\<lambda>p. jle (startTimeMs p) t) ps = []"
  proof (cases ps)
    case Nil
    then show ?thesis by simp
  next
    case (Cons p qs)
    with none have "\<not> jle (startTimeMs p) t" by auto
    with Cons show ?thesis by simp
  qed
  then show "findCurrentBudget ps t = PInf"
    unfolding findCurrentBudget_takeWhile by simp
qed

theorem findCurrentBudget_latest_started_witness:
  "findCurrentBudget
     [\<lparr>startTimeMs = Fin 0, budget = Fin 1\<rparr>, \<lparr>startTimeMs = Fin 1, budget = Fin 2\<rparr>,
      \<lparr>startTimeMs = Fin 1, budget = Fin 3\<rparr>, \<lparr>startTimeMs = Fin 2, budget = Fin 4\<rparr>]
     (Fin 1) = Fin 3
   \<and> findCurrentBudget [\<lparr>startTimeMs = Fin 1, budget = Fin 100\<rparr>] (Fin 0) = PInf"
proof -
  let ?ps = "[\<lparr>startTimeMs = Fin 0, budget = Fin 1\<rparr>, \<lparr>startTimeMs = Fin 1, budget = Fin 2\<rparr>,
      \<lparr>startTimeMs = Fin 1, budget = Fin 3\<rparr>, \<lparr>startTimeMs = Fin 2, budget = Fin 4\<rparr>]"
  have s1: "successively (\<lambda>p q. jle (startTimeMs p) (startTimeMs q)) ?ps"
    by simp
  have later: "\<forall>j. 2 < j \<and> j < length ?ps \<longrightarrow> \<not> jle (startTimeMs (?ps ! j)) (Fin 1)"
  proof (intro allI impI)
    fix j :: nat
    assume "2 < j \<and> j < length ?ps"
    then have "j = 3" by simp
    then show "\<not> jle (startTimeMs (?ps ! j)) (Fin 1)" by simp
  qed
  have a: "findCurrentBudget ?ps (Fin 1) = budget (?ps ! 2)"
  proof (rule findCurrentBudget_latest_started[OF s1, THEN conjunct1, THEN spec, THEN mp])
    show "2 < length ?ps \<and> jle (startTimeMs (?ps ! 2)) (Fin 1) \<and>
      (\<forall>j. 2 < j \<and> j < length ?ps \<longrightarrow> \<not> jle (startTimeMs (?ps ! j)) (Fin 1))"
    proof (intro conjI)
      show "2 < length ?ps" by simp
      show "jle (startTimeMs (?ps ! 2)) (Fin 1)" by simp
      show "\<forall>j. 2 < j \<and> j < length ?ps \<longrightarrow> \<not> jle (startTimeMs (?ps ! j)) (Fin 1)"
        by (rule later)
    qed
  qed
  let ?qs = "[\<lparr>startTimeMs = Fin 1, budget = Fin 100\<rparr>]"
  have s2: "successively (\<lambda>p q. jle (startTimeMs p) (startTimeMs q)) ?qs"
    by simp
  have b: "findCurrentBudget ?qs (Fin 0) = PInf"
  proof (rule findCurrentBudget_latest_started[OF s2, THEN conjunct2, THEN mp])
    show "\<forall>i. i < length ?qs \<longrightarrow> \<not> jle (startTimeMs (?qs ! i)) (Fin 0)" by simp
  qed
  show ?thesis using a b by simp
qed

section \<open>Sortedness of the periods: what the check accepts\<close>

text \<open>
  \<open>inSortedOrder\<close> accepts a list when no element is less than the one before it;
  on a list without NaN this is the list being non-decreasing.
\<close>

lemma inSortedOrder_loop_iff:
  "inSortedOrder_loop xs l \<longleftrightarrow> successively (\<lambda>x y. \<not> jlt y x) (l # xs)"
  by (induction xs arbitrary: l) auto

lemma jlt_NInf: "\<not> jlt x NInf"
  by (cases x) auto

lemma inSortedOrder_iff:
  "inSortedOrder xs \<longleftrightarrow> successively (\<lambda>x y. \<not> jlt y x) xs"
  unfolding inSortedOrder_def inSortedOrder_loop_iff
  by (cases xs) (simp_all add: jlt_NInf)

lemma not_jlt_iff_jle: "x \<noteq> NaN \<Longrightarrow> y \<noteq> NaN \<Longrightarrow> \<not> jlt y x \<longleftrightarrow> jle x y"
  by (cases x; cases y) auto

lemma inSortedOrder_iff_jle:
  assumes "\<forall>x\<in>set xs. x \<noteq> NaN"
  shows "inSortedOrder xs \<longleftrightarrow> successively jle xs"
  unfolding inSortedOrder_iff using assms
  by (intro successively_cong) (auto simp: not_jlt_iff_jle)

section \<open>The normalizer: its value and its range\<close>

lemma d3_sum_loop_foldl:
  "d3_sum_loop vs s = foldl jadd s (filter truthy vs)"
  by (induction vs arbitrary: s) simp_all

lemma d3_sum_foldl:
  "d3_sum xs f = foldl jadd (Fin 0) (filter truthy (map f xs))"
  unfolding d3_sum_def by (rule d3_sum_loop_foldl)

lemma jmul_Fin_Fin_cases:
  assumes "jmul c (Fin x) = Fin p"
  obtains c' where "c = Fin c'" and "fl64 (c' * x) = Fin p"
  using assms by (cases c) (auto split: if_splits)

text \<open>
  The quotient of two finite numbers, multiplied back by the divisor, is the
  dividend up to the two roundings, as long as neither result is subnormal.
\<close>

lemma jdiv_jmul_tolerance:
  assumes q: "min_normal \<le> \<bar>y / x\<bar>" and y: "2 * min_normal \<le> \<bar>y\<bar>"
    and p: "jmul (jdiv (Fin y) (Fin x)) (Fin x) = Fin p"
  shows "\<bar>p - y\<bar> \<le> \<bar>y\<bar> * (1 / 2 ^ 52 + 1 / 2 ^ 106)"
proof -
  have x: "x \<noteq> 0" using q min_normal_facts(1) by auto
  from p obtain c where c: "fl64 (y / x) = Fin c" and pc: "fl64 (c * x) = Fin p"
    using x by (auto elim: jmul_Fin_Fin_cases)
  have "\<bar>c - y / x\<bar> \<le> \<bar>y / x\<bar> / 2 ^ 53"
    using c q by (rule fl64_relative_error)
  then have "\<bar>c - y / x\<bar> * \<bar>x\<bar> \<le> \<bar>y / x\<bar> / 2 ^ 53 * \<bar>x\<bar>"
    by (rule mult_right_mono) simp
  moreover have "\<bar>c - y / x\<bar> * \<bar>x\<bar> = \<bar>c * x - y\<bar>"
    using x by (simp add: abs_mult[symmetric] left_diff_distrib)
  moreover have "\<bar>y / x\<bar> / 2 ^ 53 * \<bar>x\<bar> = \<bar>y\<bar> / 2 ^ 53"
    using x by simp
  ultimately have e1: "\<bar>c * x - y\<bar> \<le> \<bar>y\<bar> / 2 ^ 53" by simp
  have lo: "\<bar>y\<bar> - \<bar>y\<bar> / 2 ^ 53 \<le> \<bar>c * x\<bar>" and hi: "\<bar>c * x\<bar> \<le> \<bar>y\<bar> + \<bar>y\<bar> / 2 ^ 53"
    using e1 by linarith+
  have "min_normal \<le> \<bar>y\<bar> / 2" using y by simp
  also have "\<bar>y\<bar> / 2 \<le> \<bar>y\<bar> - \<bar>y\<bar> / 2 ^ 53" by simp
  finally have "min_normal \<le> \<bar>c * x\<bar>" using lo by linarith
  with pc have "\<bar>p - c * x\<bar> \<le> \<bar>c * x\<bar> / 2 ^ 53"
    by (rule fl64_relative_error)
  also have "\<dots> \<le> (\<bar>y\<bar> + \<bar>y\<bar> / 2 ^ 53) / 2 ^ 53"
    using hi by (simp add: divide_right_mono)
  finally have e2: "\<bar>p - c * x\<bar> \<le> \<bar>y\<bar> / 2 ^ 53 + \<bar>y\<bar> / 2 ^ 106"
    by (simp add: add_divide_distrib)
  have "\<bar>p - y\<bar> \<le> \<bar>p - c * x\<bar> + \<bar>c * x - y\<bar>" by linarith
  also have "\<dots> \<le> (\<bar>y\<bar> / 2 ^ 53 + \<bar>y\<bar> / 2 ^ 106) + \<bar>y\<bar> / 2 ^ 53"
    using e1 e2 by linarith
  also have "\<dots> = \<bar>y\<bar> * (1 / 2 ^ 52 + 1 / 2 ^ 106)"
    by (simp add: distrib_left)
  finally show ?thesis .
qed

text \<open>
  C4, as amended: \<open>_computeWeightNormalizer\<close> returns exactly \<open>1\<close> when the sum of
  the weights is at most the budget, which includes an infinite budget, and the
  budget divided by the sum otherwise. The sum is the one the code computes: the
  weights that are neither \<open>0\<close> nor NaN, added in order to \<open>0\<close>, every addition
  rounded. In the latter case, when the sum and the budget are finite and neither
  the quotient nor the budget is below the normal range, the coefficient times the
  sum is within the relative error \<open>2^-52 + 2^-106\<close> of the budget.
\<close>

theorem computeWeightNormalizer_value:
  "d3_sum aws weight = foldl jadd (Fin 0) (filter truthy (map weight aws))
   \<and> (jle (d3_sum aws weight) b \<longrightarrow> computeWeightNormalizer aws b = Fin 1)
   \<and> (d3_sum aws weight \<noteq> NaN \<longrightarrow> computeWeightNormalizer aws PInf = Fin 1)
   \<and> (\<not> jle (d3_sum aws weight) b \<longrightarrow>
        computeWeightNormalizer aws b = jdiv b (d3_sum aws weight)
        \<and> (\<forall>x y p. d3_sum aws weight = Fin x \<and> b = Fin y
              \<and> min_normal \<le> \<bar>y / x\<bar> \<and> 2 * min_normal \<le> \<bar>y\<bar>
              \<and> jmul (computeWeightNormalizer aws b) (d3_sum aws weight) = Fin p
             \<longrightarrow> \<bar>p - y\<bar> \<le> \<bar>y\<bar> * (1 / 2 ^ 52 + 1 / 2 ^ 106)))"
proof (intro conjI impI allI)
  show "d3_sum aws weight = foldl jadd (Fin 0) (filter truthy (map weight aws))"
    by (rule d3_sum_foldl)
next
  assume "jle (d3_sum aws weight) b"
  then show "computeWeightNormalizer aws b = Fin 1"
    by (simp add: computeWeightNormalizer_def)
next
  assume "d3_sum aws weight \<noteq> NaN"
  then have "jle (d3_sum aws weight) PInf"
    by (cases "d3_sum aws weight") auto
  then show "computeWeightNormalizer aws PInf = Fin 1"
    by (simp add: computeWeightNormalizer_def)
next
  assume n: "\<not> jle (d3_sum aws weight) b"
  then show c: "computeWeightNormalizer aws b = jdiv b (d3_sum aws weight)"
    by (simp add: computeWeightNormalizer_def)
  fix x y p
  assume a: "d3_sum aws weight = Fin x \<and> b = Fin y
      \<and> min_normal \<le> \<bar>y / x\<bar> \<and> 2 * min_normal \<le> \<bar>y\<bar>
      \<and> jmul (computeWeightNormalizer aws b) (d3_sum aws weight) = Fin p"
  then have q: "min_normal \<le> \<bar>y / x\<bar>" and y: "2 * min_normal \<le> \<bar>y\<bar>"
    by blast+
  from a have p: "jmul (jdiv (Fin y) (Fin x)) (Fin x) = Fin p"
    by (metis c)
  from q y p show "\<bar>p - y\<bar> \<le> \<bar>y\<bar> * (1 / 2 ^ 52 + 1 / 2 ^ 106)"
    by (rule jdiv_jmul_tolerance)
qed

theorem computeWeightNormalizer_value_witness:
  "computeWeightNormalizer
     [\<lparr>address = [''1''], weight = Fin 10\<rparr>, \<lparr>address = [''2''], weight = Fin 90\<rparr>] (Fin 10)
     = Fin (3602879701896397 / 36028797018963968)
   \<and> jmul (computeWeightNormalizer
        [\<lparr>address = [''1''], weight = Fin 10\<rparr>, \<lparr>address = [''2''], weight = Fin 90\<rparr>] (Fin 10))
        (Fin 100) = Fin 10
   \<and> computeWeightNormalizer
     [\<lparr>address = [''1''], weight = Fin 10\<rparr>, \<lparr>address = [''2''], weight = Fin 90\<rparr>] (Fin 100)
     = Fin 1
   \<and> computeWeightNormalizer
     [\<lparr>address = [''1''], weight = Fin 10\<rparr>, \<lparr>address = [''2''], weight = Fin 90\<rparr>] PInf
     = Fin 1
   \<and> \<bar>7881299347898369 / 1125899906842624 - 7\<bar> \<le> \<bar>7 :: real\<bar> * (1 / 2 ^ 52 + 1 / 2 ^ 106)"
proof -
  let ?aws = "[\<lparr>address = [''1''], weight = Fin 10\<rparr>, \<lparr>address = [''2''], weight = Fin 90\<rparr>]"
  let ?one = "[\<lparr>address = [''1''], weight = Fin 25\<rparr>]"
  have s: "d3_sum ?aws weight = Fin 100" by (simp add: d3_sum_def fl64_eval)
  have q: "jdiv (Fin 10) (Fin 100) = Fin (3602879701896397 / 36028797018963968)"
    by (simp add: fl64_eval)
  have p: "jmul (Fin (3602879701896397 / 36028797018963968)) (Fin 100) = Fin 10"
    by (simp add: fl64_eval)
  have s1: "d3_sum ?one weight = Fin 25" by (simp add: d3_sum_def fl64_eval)
  have q1: "jdiv (Fin 7) (Fin 25) = Fin (1261007895663739 / 4503599627370496)"
    by (simp add: fl64_eval)
  have p1: "jmul (Fin (1261007895663739 / 4503599627370496)) (Fin 25)
      = Fin (7881299347898369 / 1125899906842624)"
    by (simp add: fl64_eval)
  have n1: "computeWeightNormalizer ?one (Fin 7) = Fin (1261007895663739 / 4503599627370496)"
    unfolding computeWeightNormalizer_def s1 Let_def q1[symmetric] by simp
  have h: "d3_sum ?one weight = Fin 25 \<and> Fin 7 = Fin 7
      \<and> min_normal \<le> \<bar>7 / 25 :: real\<bar> \<and> 2 * min_normal \<le> \<bar>7 :: real\<bar>
      \<and> jmul (computeWeightNormalizer ?one (Fin 7)) (d3_sum ?one weight)
          = Fin (7881299347898369 / 1125899906842624)"
    unfolding n1 s1 p1 by (simp add: min_normal_def)
  have n: "\<not> jle (d3_sum ?one weight) (Fin 7)" unfolding s1 by simp
  have t: "\<bar>7881299347898369 / 1125899906842624 - 7\<bar>
      \<le> \<bar>7 :: real\<bar> * (1 / 2 ^ 52 + 1 / 2 ^ 106)"
    using computeWeightNormalizer_value[of ?one "Fin 7", THEN conjunct2, THEN conjunct2,
        THEN conjunct2, THEN mp, OF n, THEN conjunct2, THEN spec, THEN spec, THEN spec,
        THEN mp, OF h] .
  have n10: "\<not> jle (d3_sum ?aws weight) (Fin 10)" unfolding s by simp
  have c10: "computeWeightNormalizer ?aws (Fin 10) = jdiv (Fin 10) (d3_sum ?aws weight)"
    using computeWeightNormalizer_value[of ?aws "Fin 10", THEN conjunct2, THEN conjunct2,
        THEN conjunct2, THEN mp, OF n10, THEN conjunct1] .
  have l100: "jle (d3_sum ?aws weight) (Fin 100)" unfolding s by simp
  have c100: "computeWeightNormalizer ?aws (Fin 100) = Fin 1"
    using computeWeightNormalizer_value[of ?aws "Fin 100", THEN conjunct2, THEN conjunct1,
        THEN mp, OF l100] .
  have nn: "d3_sum ?aws weight \<noteq> NaN" unfolding s by simp
  have cinf: "computeWeightNormalizer ?aws PInf = Fin 1"
    using computeWeightNormalizer_value[of ?aws "Fin 100", THEN conjunct2, THEN conjunct2,
        THEN conjunct1, THEN mp, OF nn] .
  show ?thesis
    unfolding c10 c100 cinf s q p using t by simp
qed

text \<open>
  The claim as stated fails. With the single weight \<open>25\<close> and the budget \<open>7\<close> the
  coefficient is \<open>7 / 25\<close> rounded, \<open>0.28000000000000003\<close>, and the coefficient
  times the sum is \<open>7.000000000000001\<close>, which exceeds the budget. And a weight
  that is NaN is left out of the sum: with the weights NaN and \<open>25\<close> the coefficient
  is again \<open>0.28000000000000003\<close>, although NaN plus \<open>25\<close> is NaN, which is not
  greater than \<open>7\<close>, and \<open>7\<close> divided by NaN is NaN.
\<close>

theorem computeWeightNormalizer_product_exceeds_budget:
  "jlt (Fin 7)
     (jmul (computeWeightNormalizer [\<lparr>address = [''1''], weight = Fin 25\<rparr>] (Fin 7))
           (d3_sum [\<lparr>address = [''1''], weight = Fin 25\<rparr>] weight))
   \<and> computeWeightNormalizer
        [\<lparr>address = [''1''], weight = NaN\<rparr>, \<lparr>address = [''2''], weight = Fin 25\<rparr>] (Fin 7)
       = Fin (1261007895663739 / 4503599627370496)
   \<and> jdiv (Fin 7) (jadd (jadd (Fin 0) NaN) (Fin 25)) = NaN"
  by (simp add: computeWeightNormalizer_def d3_sum_def fl64_eval)

lemma d3_sum_loop_nonneg:
  "\<forall>v\<in>set vs. jle (Fin 0) v \<Longrightarrow> jle (Fin 0) s \<Longrightarrow> jle (Fin 0) (d3_sum_loop vs s)"
proof (induction vs arbitrary: s)
  case Nil
  then show ?case by simp
next
  case (Cons v vs)
  have "jle (Fin 0) (jadd s v)"
    using Cons.prems by (cases s; cases v) (auto intro: fl64_nonneg)
  with Cons show ?case by simp
qed

lemma d3_sum_nonneg:
  "\<forall>aw\<in>set aws. jle (Fin 0) (weight aw) \<Longrightarrow> jle (Fin 0) (d3_sum aws weight)"
  unfolding d3_sum_def by (rule d3_sum_loop_nonneg) auto

lemma normalizer_range:
  "jle (Fin 0) s \<Longrightarrow> jle (Fin 0) b \<Longrightarrow> \<not> jle s b \<Longrightarrow>
   jle (Fin 0) (jdiv b s) \<and> jle (jdiv b s) (Fin 1)"
  by (cases s; cases b) (auto intro!: fl64_nonneg fl64_le_1 simp: divide_less_eq)

lemma jdiv_zero [simp]: "y \<noteq> 0 \<Longrightarrow> jdiv (Fin 0) (Fin y) = Fin 0"
  by (simp add: fl64_0)

lemma jmul_zero [simp]: "jmul (Fin x) (Fin 0) = Fin 0"
  by (simp add: fl64_0)

text \<open>
  C5, as amended: for non-negative weights and a budget that is at least \<open>0\<close>, the
  coefficient \<open>_computeWeightNormalizer\<close> returns lies in the closed interval from
  \<open>0\<close> to \<open>1\<close>; a budget of \<open>0\<close> yields the coefficient \<open>0\<close>, which zeroes every
  finite matching weight, when the sum of the weights is positive.
\<close>

theorem computeWeightNormalizer_closed_unit_interval:
  assumes "\<forall>aw\<in>set aws. jle (Fin 0) (weight aw)" and "jle (Fin 0) b"
  shows "jle (Fin 0) (computeWeightNormalizer aws b)
       \<and> jle (computeWeightNormalizer aws b) (Fin 1)
       \<and> (b = Fin 0 \<and> jlt (Fin 0) (d3_sum aws weight) \<longrightarrow>
            computeWeightNormalizer aws b = Fin 0
          \<and> (\<forall>aw\<in>set aws. \<forall>x. weight aw = Fin x \<longrightarrow>
                jmul (weight aw) (computeWeightNormalizer aws b) = Fin 0))"
proof -
  have s: "jle (Fin 0) (d3_sum aws weight)" using assms(1) by (rule d3_sum_nonneg)
  show ?thesis
  proof (cases "jle (d3_sum aws weight) b")
    case True
    then show ?thesis
      by (cases "d3_sum aws weight") (auto simp: computeWeightNormalizer_def)
  next
    case False
    with normalizer_range[OF s assms(2) False] show ?thesis
      by (cases "d3_sum aws weight") (auto simp: computeWeightNormalizer_def)
  qed
qed

theorem computeWeightNormalizer_closed_unit_interval_witness:
  "jle (Fin 0) (computeWeightNormalizer
     [\<lparr>address = [''1''], weight = Fin 10\<rparr>, \<lparr>address = [''2''], weight = Fin 90\<rparr>] (Fin 10))
   \<and> jle (computeWeightNormalizer
     [\<lparr>address = [''1''], weight = Fin 10\<rparr>, \<lparr>address = [''2''], weight = Fin 90\<rparr>] (Fin 10)) (Fin 1)
   \<and> computeWeightNormalizer
     [\<lparr>address = [''1''], weight = Fin 10\<rparr>, \<lparr>address = [''2''], weight = Fin 90\<rparr>] (Fin 0) = Fin 0"
proof -
  let ?aws = "[\<lparr>address = [''1''], weight = Fin 10\<rparr>, \<lparr>address = [''2''], weight = Fin 90\<rparr>]"
  have w: "\<forall>aw\<in>set ?aws. jle (Fin 0) (weight aw)" by simp
  have b10: "jle (Fin 0) (Fin 10)" and b0: "jle (Fin 0) (Fin 0)" by simp_all
  have s: "jlt (Fin 0) (d3_sum ?aws weight)" by (simp add: d3_sum_def fl64_eval)
  show ?thesis
    using computeWeightNormalizer_closed_unit_interval[OF w b10]
      computeWeightNormalizer_closed_unit_interval[OF w b0] s
    by simp
qed

text \<open>
  The claim as stated fails: with the single weight \<open>1\<close> and the budget \<open>0\<close> the
  coefficient is \<open>0\<close>, outside the half-open interval; and with no weights a budget
  of \<open>0\<close> yields \<open>1\<close>, not \<open>0\<close>.
\<close>

theorem computeWeightNormalizer_half_open_interval_fails:
  "\<not> (jlt (Fin 0) (computeWeightNormalizer [\<lparr>address = [''1''], weight = Fin 1\<rparr>] (Fin 0))
      \<and> jle (computeWeightNormalizer [\<lparr>address = [''1''], weight = Fin 1\<rparr>] (Fin 0)) (Fin 1))
   \<and> computeWeightNormalizer [] (Fin 0) \<noteq> Fin 0"
  by (simp add: computeWeightNormalizer_def d3_sum_def fl64_1)

lemma d3_sum_loop_zeros: "\<forall>v\<in>set vs. v = Fin 0 \<Longrightarrow> d3_sum_loop vs s = s"
  by (induction vs arbitrary: s) auto

section \<open>What a run computes\<close>

lemma reweightingForEntry_loop_eq:
  "reweightingForEntry_loop ev ps pre bs results tr =
     (results @ concat (map (bucketReweights ev ps pre) bs),
      tr @ concat (map (bucketEvents pre) bs))"
proof (induction bs arbitrary: results tr)
  case Nil
  then show ?case by simp
next
  case (Cons b bs)
  show ?case
    by (simp add: Cons.IH bucketReweights_def bucketEvents_def Let_def)
qed

lemma reweightingForEntry_eq:
  "reweightingForEntry ev part entry tr =
     (if periodsInOrder entry
      then (Inr (entryReweights ev part entry), tr @ entryEvents part entry)
      else (Inl (PeriodsOutOfOrder (prefix entry)), tr @ [CheckedPeriods (prefix entry)]))"
  by (simp add: reweightingForEntry_def reweightingForEntry_loop_eq periodsInOrder_def
      entryReweights_def entryEvents_def)

lemma computeReweighting_map_eq:
  "computeReweighting_map ev part es tr =
     (if \<forall>e\<in>set es. periodsInOrder e
      then (Inr (map (entryReweights ev part) es),
            tr @ concat (map (entryEvents part) es))
      else (Inl (PeriodsOutOfOrder (prefix (hd (dropWhile periodsInOrder es)))),
            tr @ concat (map (entryEvents part) (takeWhile periodsInOrder es))
               @ [CheckedPeriods (prefix (hd (dropWhile periodsInOrder es)))]))"
proof (induction es arbitrary: tr)
  case Nil
  then show ?case by simp
next
  case (Cons e es)
  show ?case
  proof (cases "periodsInOrder e")
    case True
    then show ?thesis
      by (simp add: reweightingForEntry_eq Cons.IH)
  next
    case False
    then show ?thesis
      by (simp add: reweightingForEntry_eq)
  qed
qed

lemma Weights_eta: "\<lparr>nodeWeights = nodeWeights x\<rparr> = x"
  by (cases x) simp

lemma applyBudget_loop_eq:
  assumes "nw < length (heap w)" and "weights wg < length (heap w)" and "nw \<noteq> weights wg"
  shows "applyBudget_loop wg nw rs w =
     w\<lparr>heap := (heap w)[nw :=
          \<lparr>nodeWeights = materialize (nodeWeights (heap w ! weights wg)) rs
                           (nodeWeights (heap w ! nw))\<rparr>],
       trace := trace w @ map (\<lambda>r. SetWeight (address r)) rs\<rparr>"
  using assms
proof (induction rs arbitrary: w)
  case Nil
  then show ?case by (simp add: materialize_def Weights_eta)
next
  case (Cons r rs)
  let ?w1 = "w\<lparr>heap := (heap w)[nw :=
                   (heap w ! nw)\<lparr>nodeWeights :=
                     (nodeWeights (heap w ! nw))(address r \<mapsto>
                        jmul (orElse (nodeWeights (heap w ! weights wg) (address r)) (Fin 1))
                          (weight r))\<rparr>],
              trace := trace w @ [SetWeight (address r)]\<rparr>"
  have step: "applyBudget_loop wg nw (r # rs) w = applyBudget_loop wg nw rs ?w1"
    by (simp add: Let_def)
  have p: "nw < length (heap ?w1)" "weights wg < length (heap ?w1)"
    using Cons.prems by simp_all
  have same: "heap ?w1 ! weights wg = heap w ! weights wg"
    using Cons.prems by simp
  have new: "heap ?w1 ! nw = (heap w ! nw)\<lparr>nodeWeights :=
                     (nodeWeights (heap w ! nw))(address r \<mapsto>
                        jmul (orElse (nodeWeights (heap w ! weights wg) (address r)) (Fin 1))
                          (weight r))\<rparr>"
    using Cons.prems by simp
  show ?case
    unfolding step Cons.IH[OF p Cons.prems(3)] same new
    by (simp add: materialize_def)
qed

lemma world_updates: "w\<lparr>heap := h, trace := t\<rparr> = \<lparr>heap = h, trace = t\<rparr>"
  by (cases w) simp

lemma applyBudget_eq:
  assumes "weights wg < length (heap w)"
  shows "applyBudget pg w wg b =
    (if anyCommonPrefixes (map prefix (entries b))
     then (Inl PrefixConflict, w\<lparr>trace := trace w @ [CheckedPrefixes]\<rparr>)
     else if intervalLength b \<noteq> ''WEEKLY''
     then (Inl NonWeeklyBudget, w\<lparr>trace := trace w @ [CheckedPrefixes, CheckedIntervalLength]\<rparr>)
     else if \<not> (\<forall>e\<in>set (entries b). periodsInOrder e)
     then (Inl (PeriodsOutOfOrder (prefix (hd (dropWhile periodsInOrder (entries b))))),
           \<lparr>heap = heap w @ [heap w ! weights wg],
            trace = trace w @ [CheckedPrefixes, CheckedIntervalLength, CopiedWeights]
              @ concat (map (entryEvents (pg (graph wg))) (takeWhile periodsInOrder (entries b)))
              @ [CheckedPeriods (prefix (hd (dropWhile periodsInOrder (entries b))))]\<rparr>)
     else (Inr \<lparr>graph = graph wg, weights = length (heap w)\<rparr>,
           \<lparr>heap = heap w @
              [\<lparr>nodeWeights = materialize (nodeWeights (heap w ! weights wg))
                  (concat (map (entryReweights (nodeWeightEvaluator (heap w ! weights wg))
                     (pg (graph wg))) (entries b)))
                  (nodeWeights (heap w ! weights wg))\<rparr>],
            trace = trace w @ [CheckedPrefixes, CheckedIntervalLength, CopiedWeights]
              @ concat (map (entryEvents (pg (graph wg))) (entries b))
              @ map (\<lambda>r. SetWeight (address r))
                  (concat (map (entryReweights (nodeWeightEvaluator (heap w ! weights wg))
                     (pg (graph wg))) (entries b)))\<rparr>))"
proof (cases "anyCommonPrefixes (map prefix (entries b))")
  case True
  then show ?thesis by (simp add: applyBudget_def)
next
  case nc: False
  show ?thesis
  proof (cases "intervalLength b \<noteq> ''WEEKLY''")
    case True
    then show ?thesis using nc by (simp add: applyBudget_def)
  next
    case wk: False
    show ?thesis
    proof (cases "\<forall>e\<in>set (entries b). periodsInOrder e")
      case False
      then show ?thesis
        using nc wk assms
        by (simp add: applyBudget_def Weights_copy_def computeReweighting_def
            computeReweighting_map_eq nth_append Let_def world_updates)
    next
      case True
      let ?w4 = "\<lparr>heap = heap w @ [heap w ! weights wg],
            trace = trace w @ [CheckedPrefixes, CheckedIntervalLength, CopiedWeights]
              @ concat (map (entryEvents (pg (graph wg))) (entries b))\<rparr>"
      let ?R = "concat (map (entryReweights (nodeWeightEvaluator (heap w ! weights wg))
                     (pg (graph wg))) (entries b))"
      have run: "applyBudget pg w wg b =
          (Inr \<lparr>graph = graph wg, weights = length (heap w)\<rparr>,
           applyBudget_loop wg (length (heap w)) ?R ?w4)"
        using nc wk assms True
        by (simp add: applyBudget_def Weights_copy_def computeReweighting_def
            computeReweighting_map_eq nth_append Let_def world_updates)
      have loop: "applyBudget_loop wg (length (heap w)) ?R ?w4 =
          ?w4\<lparr>heap := (heap ?w4)[length (heap w) :=
             \<lparr>nodeWeights = materialize (nodeWeights (heap ?w4 ! weights wg)) ?R
                           (nodeWeights (heap ?w4 ! length (heap w)))\<rparr>],
            trace := trace ?w4 @ map (\<lambda>r. SetWeight (address r)) ?R\<rparr>"
        using assms by (intro applyBudget_loop_eq) simp_all
      show ?thesis
        unfolding run loop using nc wk assms True
        by (simp add: nth_append)
    qed
  qed
qed

text \<open>The equations that evaluate a run on a concrete input.\<close>

lemmas run_simps =
  anyCommonPrefixes_iff_set periodsInOrder_def inSortedOrder_def entryEvents_def
  bucketEvents_def entryReweights_def bucketReweights_def computeWeightNormalizer_def
  d3_sum_def findCurrentBudget_takeWhile nodeWeightEvaluator_def materialize_def orElse_def
  fl64_eval

section \<open>The inputs of a run are left as they were\<close>

text \<open>
  C8: \<open>applyBudget\<close> never mutates its inputs. The policy and the graph are values
  the code only reads. After the call, whether it returned or threw, every weights
  object of the store before the call, the input graph's among them, holds exactly
  its original entries; the returned value refers to the same graph and to a weights
  object that was not in the store before the call.
\<close>

theorem applyBudget_inputs_unchanged:
  assumes "weights wg < length (heap w)"
  shows "take (length (heap w)) (heap (snd (applyBudget pg w wg b))) = heap w
     \<and> heap (snd (applyBudget pg w wg b)) ! weights wg = heap w ! weights wg
     \<and> (\<forall>wg'. fst (applyBudget pg w wg b) = Inr wg' \<longrightarrow>
           graph wg' = graph wg
         \<and> \<not> weights wg' < length (heap w)
         \<and> weights wg' < length (heap (snd (applyBudget pg w wg b)))
         \<and> weights wg' \<noteq> weights wg)"
  using assms by (simp add: applyBudget_eq[OF assms] nth_append)

theorem applyBudget_inputs_unchanged_witness:
  "take 1 (heap (snd (applyBudget
     (\<lambda>g. [\<lparr>interval_startTimeMs = Fin 0, nodes = [[''1''], [''2'']]\<rparr>])
     \<lparr>heap = [\<lparr>nodeWeights = [[''1''] \<mapsto> Fin 10, [''2''] \<mapsto> Fin 90]\<rparr>], trace = []\<rparr>
     \<lparr>graph = (), weights = 0\<rparr>
     \<lparr>entries = [\<lparr>prefix = [], periods = [\<lparr>startTimeMs = NInf, budget = Fin 10\<rparr>]\<rparr>],
      intervalLength = ''WEEKLY''\<rparr>)))
   = [\<lparr>nodeWeights = [[''1''] \<mapsto> Fin 10, [''2''] \<mapsto> Fin 90]\<rparr>]
   \<and> fst (applyBudget
     (\<lambda>g. [\<lparr>interval_startTimeMs = Fin 0, nodes = [[''1''], [''2'']]\<rparr>])
     \<lparr>heap = [\<lparr>nodeWeights = [[''1''] \<mapsto> Fin 10, [''2''] \<mapsto> Fin 90]\<rparr>], trace = []\<rparr>
     \<lparr>graph = (), weights = 0\<rparr>
     \<lparr>entries = [\<lparr>prefix = [], periods = [\<lparr>startTimeMs = NInf, budget = Fin 10\<rparr>]\<rparr>],
      intervalLength = ''WEEKLY''\<rparr>) = Inr \<lparr>graph = (), weights = 1\<rparr>
   \<and> length (heap (snd (applyBudget
     (\<lambda>g. [\<lparr>interval_startTimeMs = Fin 0, nodes = [[''1''], [''2'']]\<rparr>])
     \<lparr>heap = [\<lparr>nodeWeights = [[''1''] \<mapsto> Fin 10, [''2''] \<mapsto> Fin 90]\<rparr>], trace = []\<rparr>
     \<lparr>graph = (), weights = 0\<rparr>
     \<lparr>entries = [\<lparr>prefix = [], periods = [\<lparr>startTimeMs = NInf, budget = Fin 10\<rparr>]\<rparr>],
      intervalLength = ''WEEKLY''\<rparr>))) = 2"
proof -
  let ?pg = "\<lambda>g::unit. [\<lparr>interval_startTimeMs = Fin 0, nodes = [[''1''], [''2'']]\<rparr>]"
  let ?old = "\<lparr>nodeWeights = [[''1''] \<mapsto> Fin 10, [''2''] \<mapsto> Fin 90]\<rparr>"
  let ?w = "\<lparr>heap = [?old], trace = []\<rparr>"
  let ?wg = "\<lparr>graph = (), weights = 0\<rparr>"
  let ?b = "\<lparr>entries = [\<lparr>prefix = [], periods = [\<lparr>startTimeMs = NInf, budget = Fin 10\<rparr>]\<rparr>],
      intervalLength = ''WEEKLY''\<rparr>"
  let ?run = "applyBudget ?pg ?w ?wg ?b"
  have ref: "weights ?wg < length (heap ?w)" by simp
  note th = applyBudget_inputs_unchanged[OF ref, of ?pg ?b]
  from th have a: "take 1 (heap (snd ?run)) = [?old]" by simp
  have b: "fst ?run = Inr \<lparr>graph = (), weights = 1\<rparr>"
    by (simp add: applyBudget_eq run_simps)
  have c: "length (heap (snd ?run)) = 2"
    by (simp add: applyBudget_eq run_simps)
  from a b c show ?thesis by simp
qed

section \<open>The order of validation, computation and writing\<close>


lemma in_set_drop_nth:
  "x \<in> set (drop n xs) \<longleftrightarrow> (\<exists>i. n \<le> i \<and> i < length xs \<and> xs ! i = x)"
proof
  assume "x \<in> set (drop n xs)"
  then obtain k where k: "k < length (drop n xs)" "drop n xs ! k = x"
    by (auto simp: in_set_conv_nth)
  then have "n \<le> n + k \<and> n + k < length xs \<and> xs ! (n + k) = x"
    by auto
  then show "\<exists>i. n \<le> i \<and> i < length xs \<and> xs ! i = x" by blast
next
  assume "\<exists>i. n \<le> i \<and> i < length xs \<and> xs ! i = x"
  then obtain i where i: "n \<le> i" "i < length xs" "xs ! i = x" by blast
  then have "i - n < length (drop n xs)" "drop n xs ! (i - n) = x"
    by auto
  then show "x \<in> set (drop n xs)"
    by (metis nth_mem)
qed

lemma allBefore_iff_nth:
  "allBefore P Q evs \<longleftrightarrow>
     (\<forall>i j. i < length evs \<and> j < length evs \<and> P (evs ! i) \<and> Q (evs ! j) \<longrightarrow> i < j)"
proof
  assume a: "allBefore P Q evs"
  show "\<forall>i j. i < length evs \<and> j < length evs \<and> P (evs ! i) \<and> Q (evs ! j) \<longrightarrow> i < j"
  proof (intro allI impI)
    fix i j
    assume h: "i < length evs \<and> j < length evs \<and> P (evs ! i) \<and> Q (evs ! j)"
    show "i < j"
    proof (rule ccontr)
      assume "\<not> i < j"
      then have ji: "j \<le> i" by simp
      let ?n = "length (takeWhile (\<lambda>e. \<not> Q e) evs)"
      have "?n \<le> j"
      proof (rule ccontr)
        assume "\<not> ?n \<le> j"
        then have "j < ?n" by simp
        then have "takeWhile (\<lambda>e. \<not> Q e) evs ! j = evs ! j"
          and "takeWhile (\<lambda>e. \<not> Q e) evs ! j \<in> set (takeWhile (\<lambda>e. \<not> Q e) evs)"
          by (simp add: takeWhile_nth, intro nth_mem)
        then have "\<not> Q (evs ! j)"
          using set_takeWhileD by fastforce
        with h show False by simp
      qed
      with ji have ni: "?n \<le> i" by simp
      have "dropWhile (\<lambda>e. \<not> Q e) evs = drop ?n evs"
        by (simp add: dropWhile_eq_drop)
      moreover have "evs ! i \<in> set (drop ?n evs)"
        using ni h unfolding in_set_drop_nth by blast
      ultimately have "\<not> P (evs ! i)" using a unfolding allBefore_def by simp
      with h show False by simp
    qed
  qed
next
  assume r: "\<forall>i j. i < length evs \<and> j < length evs \<and> P (evs ! i) \<and> Q (evs ! j) \<longrightarrow> i < j"
  show "allBefore P Q evs"
    unfolding allBefore_def
  proof
    fix e
    assume e: "e \<in> set (dropWhile (\<lambda>e. \<not> Q e) evs)"
    let ?n = "length (takeWhile (\<lambda>e. \<not> Q e) evs)"
    have d: "dropWhile (\<lambda>e. \<not> Q e) evs = drop ?n evs"
      by (simp add: dropWhile_eq_drop)
    from e d have ed: "e \<in> set (drop ?n evs)" by simp
    then have n: "?n < length evs"
      by (cases "?n < length evs") simp_all
    have q: "Q (evs ! ?n)"
      using nth_length_takeWhile[OF n] by simp
    from ed[unfolded in_set_drop_nth] obtain i where i: "?n \<le> i" "i < length evs" "evs ! i = e"
      by blast
    show "\<not> P e"
    proof
      assume "P e"
      with i n q r have "i < ?n" by blast
      with i show False by simp
    qed
  qed
qed

lemma entryEvents_kinds:
  "e \<in> set (concat (map (entryEvents part) es)) \<Longrightarrow>
     \<not> isEarlyValidation e \<and> \<not> isTableWrite e"
  by (auto simp: entryEvents_def bucketEvents_def split: if_splits)









section \<open>The reweights of one address\<close>

lemma bucketReweights_alt:
  "bucketReweights ev ps pre bk =
     (if bucketNormalizer ev ps pre bk \<noteq> Fin 1
      then map (\<lambda>a. \<lparr>address = a, weight = bucketNormalizer ev ps pre bk\<rparr>)
             (filter (\<lambda>a. hasPrefix a pre) (nodes bk))
      else [])"
  by (simp add: bucketReweights_def bucketNormalizer_def Let_def)

lemma in_bucketReweights:
  "r \<in> set (bucketReweights ev ps pre bk) \<longleftrightarrow>
     bucketNormalizer ev ps pre bk \<noteq> Fin 1 \<and> address r \<in> set (nodes bk)
     \<and> hasPrefix (address r) pre \<and> weight r = bucketNormalizer ev ps pre bk"
  by (cases r) (auto simp: bucketReweights_alt)

lemma in_entryReweights:
  "r \<in> set (entryReweights ev part e) \<longleftrightarrow>
     (\<exists>bk\<in>set part. r \<in> set (bucketReweights ev (periods e) (prefix e) bk))"
  by (auto simp: entryReweights_def)

lemma hasPrefix_comparable:
  "hasPrefix a p \<Longrightarrow> hasPrefix a q \<Longrightarrow> hasPrefix p q \<or> hasPrefix q p"
proof (induction a arbitrary: p q)
  case Nil
  then show ?case by (cases p; cases q) auto
next
  case (Cons x xs)
  show ?case
  proof (cases p)
    case Nil
    then show ?thesis by (cases q) auto
  next
    case pc: (Cons y ys)
    show ?thesis
    proof (cases q)
      case Nil
      then show ?thesis by simp
    next
      case (Cons z zs)
      with pc Cons.prems Cons.IH[of ys zs] show ?thesis by auto
    qed
  qed
qed

lemma no_conflict_entry_unique:
  assumes nc: "\<not> anyCommonPrefixes (map prefix es)"
    and e: "e \<in> set es" "e' \<in> set es"
    and a: "hasPrefix a (prefix e)" "hasPrefix a (prefix e')"
  shows "e = e'"
proof -
  from nc have d: "distinct (map prefix es)"
    and np: "\<forall>p\<in>set (map prefix es). \<forall>q\<in>set (map prefix es).
              p \<noteq> q \<longrightarrow> \<not> (hasPrefix p q \<or> hasPrefix q p)"
    unfolding anyCommonPrefixes_iff_set by blast+
  from a have "hasPrefix (prefix e) (prefix e') \<or> hasPrefix (prefix e') (prefix e)"
    by (rule hasPrefix_comparable)
  with np e have "prefix e = prefix e'" by auto
  moreover from d have "inj_on prefix (set es)" by (simp add: distinct_map)
  ultimately show ?thesis using e by (auto dest: inj_onD)
qed

lemma no_conflict_tail:
  "\<not> anyCommonPrefixes (x # xs) \<Longrightarrow> \<not> anyCommonPrefixes xs"
  unfolding anyCommonPrefixes_iff_set by auto

lemma bucket_unique:
  assumes "distinct (concat (map nodes part))"
    and "bk \<in> set part" "bk' \<in> set part"
    and "a \<in> set (nodes bk)" "a \<in> set (nodes bk')"
  shows "bk = bk'"
  using assms
proof (induction part)
  case Nil
  then show ?case by simp
next
  case (Cons x xs)
  from Cons.prems(1) have dx: "distinct (concat (map nodes xs))"
    and disj: "set (nodes x) \<inter> (\<Union>y\<in>set xs. set (nodes y)) = {}"
    by auto
  show ?case
  proof (cases "bk = x")
    case bx: True
    show ?thesis
    proof (cases "bk' = x")
      case True
      with bx show ?thesis by simp
    next
      case False
      with Cons.prems have "bk' \<in> set xs" by simp
      with Cons.prems(5) have "a \<in> (\<Union>y\<in>set xs. set (nodes y))" by blast
      with disj bx Cons.prems(4) show ?thesis by blast
    qed
  next
    case nbx: False
    with Cons.prems have bxs: "bk \<in> set xs" by simp
    show ?thesis
    proof (cases "bk' = x")
      case True
      from bxs Cons.prems(4) have "a \<in> (\<Union>y\<in>set xs. set (nodes y))" by blast
      with disj True Cons.prems(5) show ?thesis by blast
    next
      case False
      with Cons.prems have "bk' \<in> set xs" by simp
      with Cons.IH[OF dx bxs] Cons.prems show ?thesis by blast
    qed
  qed
qed

text \<open>Every reweight of a matching address of a bucket carries that bucket's normalizer.\<close>

lemma reweight_of_matching_address:
  assumes nc: "\<not> anyCommonPrefixes (map prefix es)"
    and part: "distinct (concat (map nodes part))"
    and e: "e \<in> set es" and bk: "bk \<in> set part"
    and a: "a \<in> set (nodes bk)" "hasPrefix a (prefix e)"
    and r: "r \<in> set (concat (map (entryReweights ev part) es))" "address r = a"
  shows "weight r = bucketNormalizer ev (periods e) (prefix e) bk
       \<and> bucketNormalizer ev (periods e) (prefix e) bk \<noteq> Fin 1"
proof -
  from r(1) obtain e' bk' where e': "e' \<in> set es" and bk': "bk' \<in> set part"
    and rb: "r \<in> set (bucketReweights ev (periods e') (prefix e') bk')"
    by (auto simp: in_entryReweights)
  from rb r(2) have m: "bucketNormalizer ev (periods e') (prefix e') bk' \<noteq> Fin 1"
    "a \<in> set (nodes bk')" "hasPrefix a (prefix e')"
    "weight r = bucketNormalizer ev (periods e') (prefix e') bk'"
    by (auto simp: in_bucketReweights)
  have "e = e'" using nc e e' a(2) m(3) by (rule no_conflict_entry_unique)
  moreover have "bk = bk'" using part bk bk' a(1) m(2) by (rule bucket_unique)
  ultimately show ?thesis using m by simp
qed

lemma matching_address_reweighted:
  assumes "e \<in> set es" "bk \<in> set part" "a \<in> set (nodes bk)" "hasPrefix a (prefix e)"
    and "bucketNormalizer ev (periods e) (prefix e) bk \<noteq> Fin 1"
  shows "\<lparr>address = a, weight = bucketNormalizer ev (periods e) (prefix e) bk\<rparr>
           \<in> set (concat (map (entryReweights ev part) es))"
  using assms by (auto simp: in_entryReweights in_bucketReweights)

text \<open>The table after materialization, address by address.\<close>

lemma materialize_other:
  "a \<notin> address ` set rs \<Longrightarrow> materialize orig rs t a = t a"
  by (induction rs arbitrary: t) (auto simp: materialize_def)

lemma materialize_same_weight:
  assumes "\<forall>r\<in>set rs. address r = a \<longrightarrow> weight r = n"
    and "a \<in> address ` set rs"
  shows "materialize orig rs t a = Some (jmul (orElse (orig a) (Fin 1)) n)"
  using assms
proof (induction rs arbitrary: t)
  case Nil
  then show ?case by simp
next
  case (Cons x xs)
  let ?t = "t(address x \<mapsto> jmul (orElse (orig (address x)) (Fin 1)) (weight x))"
  have step: "materialize orig (x # xs) t = materialize orig xs ?t"
    by (simp add: materialize_def)
  show ?case
  proof (cases "a \<in> address ` set xs")
    case True
    have "materialize orig xs ?t a = Some (jmul (orElse (orig a) (Fin 1)) n)"
    proof (rule Cons.IH)
      show "\<forall>r\<in>set xs. address r = a \<longrightarrow> weight r = n"
        using Cons.prems(1) by simp
      show "a \<in> address ` set xs" by (rule True)
    qed
    then show ?thesis unfolding step .
  next
    case False
    with Cons.prems(2) have ax: "address x = a" by auto
    with Cons.prems(1) have "weight x = n" by simp
    with ax False show ?thesis
      unfolding step by (simp add: materialize_other)
  qed
qed

section \<open>Buckets over and under budget\<close>

lemma jlt_not_jle: "jlt b w \<Longrightarrow> \<not> jle w b"
  by (cases b; cases w) auto

lemma isDouble_jmul_one: "isDouble v \<Longrightarrow> jmul v (Fin 1) = v"
  by (cases v) (simp_all add: isDouble_def)

lemma d3_sum_map: "d3_sum (map f xs) g = d3_sum xs (\<lambda>x. g (f x))"
  by (simp add: d3_sum_def comp_def)

lemma d3_sum_cong: "(\<And>x. x \<in> set xs \<Longrightarrow> f x = g x) \<Longrightarrow> d3_sum xs f = d3_sum xs g"
proof -
  assume "\<And>x. x \<in> set xs \<Longrightarrow> f x = g x"
  then have "map f xs = map g xs" by simp
  then show ?thesis unfolding d3_sum_def by (rule arg_cong)
qed

lemma d3_sum_loop_infinite:
  "s = PInf \<or> s = NInf \<or> s = NaN \<Longrightarrow> d3_sum_loop vs s \<noteq> Fin x"
proof (induction vs arbitrary: s)
  case Nil
  then show ?case by auto
next
  case (Cons v vs)
  have "jadd s v = PInf \<or> jadd s v = NInf \<or> jadd s v = NaN"
    using Cons.prems by (cases v) auto
  with Cons.IH[of "jadd s v"] Cons.IH[of s] Cons.prems show ?case by simp
qed

lemma d3_sum_loop_close:
  assumes "\<forall>v\<in>set vs. 0 \<le> v \<and> on_grid v" and "0 \<le> s" and "on_grid s"
    and "d3_sum_loop (map Fin vs) (Fin s) = Fin r"
  shows "within_roundings (length vs) (s + sum_list vs) r \<and> 0 \<le> r"
  using assms
proof (induction vs arbitrary: s)
  case Nil
  then show ?case by (simp add: within_roundings_refl)
next
  case (Cons v vs)
  from Cons.prems(1) have v: "0 \<le> v" "on_grid v" and vs: "\<forall>v\<in>set vs. 0 \<le> v \<and> on_grid v"
    by simp_all
  have sum0: "0 \<le> sum_list vs" using vs by (intro sum_list_nonneg) simp
  show ?case
  proof (cases "v = 0")
    case True
    with Cons.prems(4) have "d3_sum_loop (map Fin vs) (Fin s) = Fin r" by simp
    from Cons.IH[OF vs Cons.prems(2,3) this]
    have c: "within_roundings (length vs) (s + sum_list vs) r" and r: "0 \<le> r" by simp_all
    have z: "0 \<le> s + sum_list vs" using Cons.prems(2) sum0 by simp
    have le: "length vs \<le> length (v # vs)" by simp
    have "within_roundings (length (v # vs)) (s + sum_list vs) r"
      using c le z r by (rule within_roundings_mono)
    with r True show ?thesis by simp
  next
    case False
    with Cons.prems(4) have run: "d3_sum_loop (map Fin vs) (fl64 (s + v)) = Fin r" by simp
    have z: "0 \<le> s + v" using Cons.prems(2) v(1) by simp
    from fl64_nonneg_range[OF z] d3_sum_loop_infinite[of "fl64 (s + v)" "map Fin vs" r] run
    obtain s' where s': "fl64 (s + v) = Fin s'" by auto
    have s'0: "0 \<le> s'" using fl64_nonneg_cases(3)[OF z s'] .
    have s'g: "on_grid s'" using z s' by (rule fl64_on_grid)
    have "\<bar>s' - (s + v)\<bar> \<le> (s + v) / 2 ^ 53"
      using Cons.prems(3) v(2) Cons.prems(2) v(1) s' by (rule fl64_add_error)
    with z have "within_roundings 1 (s + v) s'" by (rule within_roundings_of_error)
    then have 1: "within_roundings 1 (s + v + sum_list vs) (s' + sum_list vs)"
      using sum0 by (rule within_roundings_add_const)
    from run have "d3_sum_loop (map Fin vs) (Fin s') = Fin r" unfolding s' .
    from Cons.IH[OF vs s'0 s'g this]
    have c: "within_roundings (length vs) (s' + sum_list vs) r" and r: "0 \<le> r" by simp_all
    from within_roundings_trans[OF 1 c] r show ?thesis by (simp add: add.assoc)
  qed
qed

lemma ulp_factor_le_2: "ulp_factor \<le> 2"
  by (simp add: ulp_factor_def)

lemma within_roundings_sum_list:
  "\<forall>v\<in>set vs. within_roundings k (f v) (g v) \<Longrightarrow> within_roundings k (sum_list (map f vs)) (sum_list (map g vs))"
proof (induction vs)
  case Nil
  then show ?case by (simp add: within_roundings_def)
next
  case (Cons v vs)
  then have "within_roundings k (f v) (g v)" and "within_roundings k (sum_list (map f vs)) (sum_list (map g vs))"
    by simp_all
  then have "within_roundings k (f v + sum_list (map f vs)) (g v + sum_list (map g vs))"
    by (rule within_roundings_plus)
  then show ?case by simp
qed

lemma d3_sum_loop_elems_finite:
  assumes "d3_sum_loop vs s = Fin t"
    and "\<forall>v\<in>set vs. v = PInf \<or> (\<exists>r. v = Fin r \<and> 0 \<le> r)"
    and "\<exists>r. s = Fin r \<and> 0 \<le> r"
  shows "\<forall>v\<in>set vs. v \<noteq> PInf"
  using assms
proof (induction vs arbitrary: s)
  case Nil
  then show ?case by simp
next
  case (Cons v vs)
  from Cons.prems(3) obtain r where s: "s = Fin r" and r: "0 \<le> r" by blast
  from Cons.prems(2) have rest: "\<forall>v\<in>set vs. v = PInf \<or> (\<exists>r. v = Fin r \<and> 0 \<le> r)" by simp
  from Cons.prems(2) consider "v = PInf" | r' where "v = Fin r'" "0 \<le> r'" by auto
  then show ?case
  proof cases
    case 1
    with Cons.prems(1) s have "d3_sum_loop vs PInf = Fin t" by simp
    with d3_sum_loop_infinite[of PInf vs t] show ?thesis by simp
  next
    case 2
    have "\<exists>r''. (if truthy v then jadd s v else s) = Fin r'' \<and> 0 \<le> r''"
    proof (cases "truthy v")
      case True
      have z: "0 \<le> r + r'" using r 2(2) by simp
      from Cons.prems(1) True have run: "d3_sum_loop vs (fl64 (r + r')) = Fin t"
        by (simp add: s 2(1))
      from fl64_nonneg_range[OF z] d3_sum_loop_infinite[of "fl64 (r + r')" vs t] run
      obtain r'' where r'': "fl64 (r + r') = Fin r''" by auto
      with fl64_nonneg_cases(3)[OF z r''] True show ?thesis by (simp add: s 2(1))
    next
      case False
      then show ?thesis using s r by simp
    qed
    moreover from Cons.prems(1) have "d3_sum_loop vs (if truthy v then jadd s v else s) = Fin t"
      by simp
    ultimately have "\<forall>v\<in>set vs. v \<noteq> PInf" using rest by (intro Cons.IH) 
    with 2(1) show ?thesis by simp
  qed
qed

lemma rescaled_total_close:
  fixes vs :: "real list"
  assumes vs: "\<forall>v\<in>set vs. 0 \<le> v \<and> on_grid v \<and> (v = 0 \<or> 2 * min_normal \<le> v * (y / x))"
    and W: "d3_sum_loop (map Fin vs) (Fin 0) = Fin x"
    and lt: "y < x"
    and q: "min_normal \<le> y / x"
    and T: "d3_sum_loop (map (\<lambda>v. jmul (Fin v) (jdiv (Fin y) (Fin x))) vs) (Fin 0) = Fin t"
  shows "within_roundings (2 * length vs + 2) y t" and "0 < y"
proof -
  define X where "X = sum_list vs"
  define n where "n = length vs"
  have vs0: "\<forall>v\<in>set vs. 0 \<le> v \<and> on_grid v" using vs by simp
  have X0: "0 \<le> X" unfolding X_def using vs0 by (intro sum_list_nonneg) simp
  from d3_sum_loop_close[OF vs0 _ on_grid_0 W]
  have cx: "within_roundings n X x" and x0: "0 \<le> x" by (simp_all add: X_def n_def)
  have qpos: "0 < y / x" using q min_normal_facts(1) by linarith
  then have xpos: "0 < x" using x0 by (cases "x = 0") simp_all
  with qpos show ypos: "0 < y" by (simp add: zero_less_divide_iff)
  have q1: "y / x < 1" using lt xpos by simp
  have d: "jdiv (Fin y) (Fin x) = fl64 (y / x)" using xpos by simp
  from fl64_nonneg_range[of "y / x"] fl64_le_1[of "y / x"] qpos q1
  obtain c where c: "fl64 (y / x) = Fin c" by auto
  have c0: "0 \<le> c" using fl64_nonneg_cases(3)[OF _ c] qpos by simp
  have qa: "min_normal \<le> \<bar>y / x\<bar>" using q by linarith
  have qe: "\<bar>y / x\<bar> = y / x" using qpos by linarith
  have "\<bar>c - y / x\<bar> \<le> \<bar>y / x\<bar> / 2 ^ 53"
    using c qa by (rule fl64_relative_error)
  then have "\<bar>c - y / x\<bar> \<le> (y / x) / 2 ^ 53" unfolding qe .
  with qpos have cq: "within_roundings 1 (y / x) c" by (intro within_roundings_of_error) simp_all
  then have "y / x \<le> c * ulp_factor" by (simp add: within_roundings_def)
  also have "\<dots> \<le> c * 2" using c0 ulp_factor_le_2 by (rule mult_left_mono[rotated])
  finally have chalf: "y / x \<le> 2 * c" by simp
  let ?prods = "map (\<lambda>v. jmul (Fin v) (Fin c)) vs"
  have T': "d3_sum_loop ?prods (Fin 0) = Fin t" using T unfolding d c .
  have "\<forall>p\<in>set ?prods. p = PInf \<or> (\<exists>r. p = Fin r \<and> 0 \<le> r)"
  proof
    fix p assume "p \<in> set ?prods"
    then obtain v where v: "v \<in> set vs" and p: "p = fl64 (v * c)" by auto
    have z: "0 \<le> v * c" using vs0 v c0 by simp
    from fl64_nonneg_range[OF z] fl64_nonneg_cases(3)[OF z]
    show "p = PInf \<or> (\<exists>r. p = Fin r \<and> 0 \<le> r)" unfolding p by auto
  qed
  with T' have fin: "\<forall>p\<in>set ?prods. p \<noteq> PInf"
    by (intro d3_sum_loop_elems_finite[of ?prods "Fin 0" t]) simp_all
  have prod: "fl64 (v * c) = Fin (round64 (v * c)) \<and> 0 \<le> round64 (v * c)
      \<and> on_grid (round64 (v * c)) \<and> within_roundings 1 (v * c) (round64 (v * c))"
    if v: "v \<in> set vs" for v
  proof -
    have z: "0 \<le> v * c" using vs0 v c0 by simp
    from fin v have "fl64 (v * c) \<noteq> PInf" by auto
    with fl64_nonneg_range[OF z] obtain r where r: "fl64 (v * c) = Fin r" by auto
    note f = fl64_nonneg_cases[OF z r]
    have g: "on_grid r" using z r by (rule fl64_on_grid)
    have "within_roundings 1 (v * c) r"
    proof (cases "v = 0")
      case True
      with r have "r = 0" by simp
      with True show ?thesis by (simp add: within_roundings_def)
    next
      case False
      with vs v have "2 * min_normal \<le> v * (y / x)" by auto
      also have "\<dots> \<le> v * (2 * c)" using chalf vs0 v by (intro mult_left_mono) simp_all
      finally have "min_normal \<le> \<bar>v * c\<bar>" using z by simp
      from fl64_relative_error[OF r this] z have "\<bar>r - v * c\<bar> \<le> (v * c) / 2 ^ 53" by simp
      with z show ?thesis by (rule within_roundings_of_error)
    qed
    with r f(1,3) g show ?thesis by simp
  qed
  define ps where "ps = map (\<lambda>v. round64 (v * c)) vs"
  have "?prods = map Fin ps"
    unfolding ps_def using prod by simp
  with T' have Tps: "d3_sum_loop (map Fin ps) (Fin 0) = Fin t" by simp
  have ps0: "\<forall>p\<in>set ps. 0 \<le> p \<and> on_grid p" unfolding ps_def using prod by simp
  from d3_sum_loop_close[OF ps0 _ on_grid_0 Tps]
  have ct: "within_roundings n (sum_list ps) t" by (simp add: ps_def n_def)
  have "within_roundings 1 (sum_list (map (\<lambda>v. v * c) vs)) (sum_list (map (\<lambda>v. round64 (v * c)) vs))"
    using prod by (intro within_roundings_sum_list) simp
  then have cp: "within_roundings 1 (X * c) (sum_list ps)"
    by (simp add: ps_def X_def sum_list_mult_const)
  have "within_roundings (1 + n) (y / x * x) (c * X)"
    using cq within_roundings_sym[OF cx] qpos c0 x0 X0 by (intro within_roundings_mult) simp_all
  then have cy: "within_roundings (1 + n) y (X * c)" using xpos by (simp add: mult.commute)
  from within_roundings_trans[OF within_roundings_trans[OF cy cp] ct]
  show "within_roundings (2 * length vs + 2) y t" by (simp add: n_def mult_2)
qed

lemma d3_sum_rescaled_close:
  assumes ws: "\<forall>a\<in>set S. \<exists>v. f a = Fin v \<and> 0 \<le> v \<and> isDouble (f a)
                  \<and> (v = 0 \<or> 2 * min_normal \<le> v * (y / x))"
    and W: "d3_sum S f = Fin x"
    and lt: "y < x"
    and q: "min_normal \<le> y / x"
    and T: "d3_sum S (\<lambda>a. jmul (f a) (jdiv (Fin y) (Fin x))) = Fin t"
  shows "\<bar>t - y\<bar> \<le> y * ((1 + 1 / 2 ^ 52) ^ (2 * length S + 2) - 1)"
proof -
  define val where "val v = (case v of Fin r \<Rightarrow> r | _ \<Rightarrow> 0)" for v
  define vs where "vs = map (\<lambda>a. val (f a)) S"
  have fv: "f a = Fin (val (f a))" if "a \<in> set S" for a
    using ws that by (auto simp: val_def)
  have m1: "map f S = map Fin vs" unfolding vs_def using fv by simp
  have m2: "map (\<lambda>a. jmul (f a) (jdiv (Fin y) (Fin x))) S
      = map (\<lambda>v. jmul (Fin v) (jdiv (Fin y) (Fin x))) vs"
    unfolding vs_def using fv by simp
  have vs: "\<forall>v\<in>set vs. 0 \<le> v \<and> on_grid v \<and> (v = 0 \<or> 2 * min_normal \<le> v * (y / x))"
  proof
    fix v assume "v \<in> set vs"
    then obtain a where a: "a \<in> set S" and v: "v = val (f a)" unfolding vs_def by auto
    from ws a obtain v' where v': "f a = Fin v'" "0 \<le> v'" "isDouble (f a)"
      "v' = 0 \<or> 2 * min_normal \<le> v' * (y / x)" by blast
    from v v'(1) have "v = v'" by (simp add: val_def)
    with v' isDouble_on_grid[of v'] 
    show "0 \<le> v \<and> on_grid v \<and> (v = 0 \<or> 2 * min_normal \<le> v * (y / x))" by simp
  qed
  have W': "d3_sum_loop (map Fin vs) (Fin 0) = Fin x"
    using W unfolding d3_sum_def m1 .
  have T': "d3_sum_loop (map (\<lambda>v. jmul (Fin v) (jdiv (Fin y) (Fin x))) vs) (Fin 0) = Fin t"
    using T unfolding d3_sum_def m2 .
  note r = rescaled_total_close[OF vs W' lt q T']
  have "\<bar>t - y\<bar> \<le> y * (ulp_factor ^ (2 * length vs + 2) - 1)"
    using r(1) r(2) by (intro within_roundings_abs) simp_all
  then show ?thesis unfolding ulp_factor_def by (simp add: vs_def)
qed

lemma applyBudget_success:
  assumes ref: "weights wg < length (heap w)"
    and run: "applyBudget pg w wg b = (Inr wg', w')"
  shows "\<not> anyCommonPrefixes (map prefix (entries b))"
    and "\<forall>e\<in>set (entries b). periodsInOrder e"
    and "graph wg' = graph wg"
    and "weights wg' = length (heap w)"
    and "heap w' ! weights wg' =
          \<lparr>nodeWeights = materialize (nodeWeights (heap w ! weights wg))
             (concat (map (entryReweights (nodeWeightEvaluator (heap w ! weights wg))
                (pg (graph wg))) (entries b)))
             (nodeWeights (heap w ! weights wg))\<rparr>"
    and "trace w' = trace w @ [CheckedPrefixes, CheckedIntervalLength, CopiedWeights]
              @ concat (map (entryEvents (pg (graph wg))) (entries b))
              @ map (\<lambda>r. SetWeight (address r))
                  (concat (map (entryReweights (nodeWeightEvaluator (heap w ! weights wg))
                     (pg (graph wg))) (entries b)))"
  using run unfolding applyBudget_eq[OF ref]
  by (auto split: if_splits)

lemma nodeWeightEvaluator_orElse:
  "nodeWeightEvaluator x a = orElse (nodeWeights x a) (Fin 1)"
  by (simp add: nodeWeightEvaluator_def orElse_def)

text \<open>
  C1, as amended: take a weighted graph whose partition puts every node address in
  one bucket, a policy that passes validation, an entry of the policy and a bucket.
  Let \<open>S\<close> be the addresses of the bucket's nodes that have the entry's prefix, \<open>W\<close>
  the sum of their effective weights (the value of the weight table, \<open>1\<close> when the
  address is absent) as the code computes it, and \<open>B\<close> the budget resolved from the
  entry's periods at the bucket's start time. If \<open>W > B\<close>, each address of \<open>S\<close>
  whose original effective weight is a binary64 number has in the returned graph the
  effective weight that is its original effective weight times \<open>B / W\<close>, quotient
  and product rounded to binary64; the weight table holds that product whenever the
  rounded quotient is not \<open>1\<close>. The new effective weights of \<open>S\<close> then sum, as the
  code's sum computes it, to the sum of these rounded products. That total need not
  be \<open>B\<close>. It differs from \<open>B\<close> by at most \<open>B * ((1 + 2^-52)^(2n + 2) - 1)\<close>,
  \<open>n\<close> being the number of addresses of \<open>S\<close>, when the original effective weights
  of \<open>S\<close> are finite non-negative binary64 numbers, \<open>W\<close>, \<open>B\<close> and the new total
  are finite, and neither \<open>B / W\<close> nor a non-zero weight times \<open>B / W\<close> is below
  the normal range (\<open>B / W >= 2^-1022\<close>, the weight times \<open>B / W\<close> at least
  \<open>2^-1021\<close>). If \<open>W <= B\<close>, the weight-table entries of the addresses of \<open>S\<close>
  are unchanged.
\<close>

theorem applyBudget_rescales_buckets_over_budget:
  assumes ref: "weights wg < length (heap w)"
    and part: "distinct (concat (map nodes (pg (graph wg))))"
    and run: "applyBudget pg w wg b = (Inr wg', w')"
    and e: "e \<in> set (entries b)" and bk: "bk \<in> set (pg (graph wg))"
  shows "let S = filter (\<lambda>a. hasPrefix a (prefix e)) (nodes bk);
             old = heap w ! weights wg;
             new = heap w' ! weights wg';
             W = d3_sum S (nodeWeightEvaluator old);
             B = findCurrentBudget (periods e) (interval_startTimeMs bk)
         in (jlt B W \<longrightarrow>
               (\<forall>a\<in>set S. isDouble (nodeWeightEvaluator old a) \<longrightarrow>
                   nodeWeightEvaluator new a = jmul (nodeWeightEvaluator old a) (jdiv B W))
             \<and> (jdiv B W \<noteq> Fin 1 \<longrightarrow>
                  (\<forall>a\<in>set S. nodeWeights new a
                      = Some (jmul (nodeWeightEvaluator old a) (jdiv B W))))
             \<and> ((\<forall>a\<in>set S. isDouble (nodeWeightEvaluator old a)) \<longrightarrow>
                  d3_sum S (nodeWeightEvaluator new)
                    = d3_sum S (\<lambda>a. jmul (nodeWeightEvaluator old a) (jdiv B W)))
             \<and> (\<forall>x y t. W = Fin x \<and> B = Fin y \<and> min_normal \<le> y / x
                    \<and> (\<forall>a\<in>set S. \<exists>v. nodeWeightEvaluator old a = Fin v \<and> 0 \<le> v
                           \<and> isDouble (nodeWeightEvaluator old a)
                           \<and> (v = 0 \<or> 2 * min_normal \<le> v * (y / x)))
                    \<and> d3_sum S (nodeWeightEvaluator new) = Fin t
                  \<longrightarrow> \<bar>t - y\<bar> \<le> y * ((1 + 1 / 2 ^ 52) ^ (2 * length S + 2) - 1)))
          \<and> (jle W B \<longrightarrow> (\<forall>a\<in>set S. nodeWeights new a = nodeWeights old a))"
proof -
  define S where "S = filter (\<lambda>a. hasPrefix a (prefix e)) (nodes bk)"
  define old where "old = heap w ! weights wg"
  define new where "new = heap w' ! weights wg'"
  define ev where "ev = nodeWeightEvaluator old"
  define W where "W = d3_sum S ev"
  define B where "B = findCurrentBudget (periods e) (interval_startTimeMs bk)"
  define R where "R = concat (map (entryReweights ev (pg (graph wg))) (entries b))"
  define N where "N = bucketNormalizer ev (periods e) (prefix e) bk"
  note ok = applyBudget_success[OF ref run]
  have newtab: "nodeWeights new = materialize (nodeWeights old) R (nodeWeights old)"
    using ok(5) by (simp add: new_def old_def R_def ev_def)
  have N: "N = (if jle W B then Fin 1 else jdiv B W)"
    by (simp add: N_def bucketNormalizer_def computeWeightNormalizer_def d3_sum_map
        W_def B_def S_def Let_def)
  have inS: "a \<in> set (nodes bk) \<and> hasPrefix a (prefix e)" if "a \<in> set S" for a
    using that by (simp add: S_def)
  have uniq: "weight r = N \<and> N \<noteq> Fin 1" if "a \<in> set S" "r \<in> set R" "address r = a" for a r
    using reweight_of_matching_address[OF ok(1) part e bk _ _ that(2)[unfolded R_def] that(3)]
      inS[OF that(1)] by (simp add: N_def)
  have same: "nodeWeights new a = nodeWeights old a" if "N = Fin 1" "a \<in> set S" for a
  proof -
    from uniq[OF that(2)] that(1) have "a \<notin> address ` set R" by blast
    then show ?thesis by (simp add: newtab materialize_other)
  qed
  have table: "nodeWeights new a = Some (jmul (ev a) (jdiv B W))"
    if "jlt B W" "jdiv B W \<noteq> Fin 1" "a \<in> set S" for a
  proof -
    from that(1,2) have n: "N = jdiv B W" "N \<noteq> Fin 1"
      using N jlt_not_jle by simp_all
    have "\<lparr>address = a, weight = N\<rparr> \<in> set R"
      unfolding R_def N_def
      using e bk inS[OF that(3)] n(2)[unfolded N_def]
      by (intro matching_address_reweighted) simp_all
    then have "a \<in> address ` set R" by force
    moreover have "\<forall>r\<in>set R. address r = a \<longrightarrow> weight r = N"
      using uniq[OF that(3)] by blast
    ultimately have "materialize (nodeWeights old) R (nodeWeights old) a
        = Some (jmul (orElse (nodeWeights old a) (Fin 1)) N)"
      by (intro materialize_same_weight) simp_all
    then show ?thesis
      using n(1) by (simp add: newtab ev_def nodeWeightEvaluator_orElse)
  qed
  have over: "nodeWeightEvaluator new a = jmul (ev a) (jdiv B W)"
    if lt: "jlt B W" and a: "a \<in> set S" and d: "isDouble (ev a)" for a
  proof (cases "jdiv B W = Fin 1")
    case True
    with lt have "N = Fin 1" using N jlt_not_jle by simp
    from same[OF this a] have "nodeWeightEvaluator new a = ev a"
      by (simp add: ev_def nodeWeightEvaluator_def)
    also have "\<dots> = jmul (ev a) (Fin 1)" using d by (simp add: isDouble_jmul_one)
    finally show ?thesis using True by simp
  next
    case False
    from table[OF lt False a] show ?thesis
      by (simp add: nodeWeightEvaluator_def)
  qed
  have total: "d3_sum S (nodeWeightEvaluator new) = d3_sum S (\<lambda>a. jmul (ev a) (jdiv B W))"
    if "jlt B W" "\<forall>a\<in>set S. isDouble (ev a)"
    using that by (intro d3_sum_cong over) simp_all
  have tol: "\<bar>t - y\<bar> \<le> y * ((1 + 1 / 2 ^ 52) ^ (2 * length S + 2) - 1)"
    if lt: "jlt B W"
      and h: "W = Fin x \<and> B = Fin y \<and> min_normal \<le> y / x
          \<and> (\<forall>a\<in>set S. \<exists>v. ev a = Fin v \<and> 0 \<le> v \<and> isDouble (ev a)
                 \<and> (v = 0 \<or> 2 * min_normal \<le> v * (y / x)))
          \<and> d3_sum S (nodeWeightEvaluator new) = Fin t"
    for x y t
  proof -
    from h have Wx: "W = Fin x" and By: "B = Fin y" and q: "min_normal \<le> y / x"
      and T: "d3_sum S (nodeWeightEvaluator new) = Fin t"
      by simp_all
    from h have ws: "\<forall>a\<in>set S. \<exists>v. ev a = Fin v \<and> 0 \<le> v \<and> isDouble (ev a)
                 \<and> (v = 0 \<or> 2 * min_normal \<le> v * (y / x))"
      by (rule conjunct2[THEN conjunct2, THEN conjunct2, THEN conjunct1])
    then have dbl: "\<forall>a\<in>set S. isDouble (ev a)" by blast
    from lt have yx: "y < x" unfolding Wx By by simp
    have Sx: "d3_sum S ev = Fin x" using Wx unfolding W_def .
    have "d3_sum S (\<lambda>a. jmul (ev a) (jdiv (Fin y) (Fin x))) = Fin t"
      using total[OF lt dbl] T unfolding Wx By by (simp only:)
    with ws Sx yx q show ?thesis by (rule d3_sum_rescaled_close)
  qed
  have under: "nodeWeights new a = nodeWeights old a" if "jle W B" "a \<in> set S" for a
    using that N by (intro same) simp_all
  have o: "jlt B W \<longrightarrow>
        (\<forall>a\<in>set S. isDouble (ev a) \<longrightarrow> nodeWeightEvaluator new a = jmul (ev a) (jdiv B W))
      \<and> (jdiv B W \<noteq> Fin 1 \<longrightarrow>
           (\<forall>a\<in>set S. nodeWeights new a = Some (jmul (ev a) (jdiv B W))))
      \<and> ((\<forall>a\<in>set S. isDouble (ev a)) \<longrightarrow>
           d3_sum S (nodeWeightEvaluator new) = d3_sum S (\<lambda>a. jmul (ev a) (jdiv B W)))
      \<and> (\<forall>x y t. W = Fin x \<and> B = Fin y \<and> min_normal \<le> y / x
             \<and> (\<forall>a\<in>set S. \<exists>v. ev a = Fin v \<and> 0 \<le> v \<and> isDouble (ev a)
                    \<and> (v = 0 \<or> 2 * min_normal \<le> v * (y / x)))
             \<and> d3_sum S (nodeWeightEvaluator new) = Fin t
           \<longrightarrow> \<bar>t - y\<bar> \<le> y * ((1 + 1 / 2 ^ 52) ^ (2 * length S + 2) - 1))"
  proof (intro impI conjI ballI allI)
    fix a assume "jlt B W" "a \<in> set S" "isDouble (ev a)"
    then show "nodeWeightEvaluator new a = jmul (ev a) (jdiv B W)" by (rule over)
  next
    fix a assume "jlt B W" "jdiv B W \<noteq> Fin 1" "a \<in> set S"
    then show "nodeWeights new a = Some (jmul (ev a) (jdiv B W))" by (rule table)
  next
    assume "jlt B W" "\<forall>a\<in>set S. isDouble (ev a)"
    then show "d3_sum S (nodeWeightEvaluator new) = d3_sum S (\<lambda>a. jmul (ev a) (jdiv B W))"
      by (rule total)
  next
    fix x y t
    assume "jlt B W" and "W = Fin x \<and> B = Fin y \<and> min_normal \<le> y / x
          \<and> (\<forall>a\<in>set S. \<exists>v. ev a = Fin v \<and> 0 \<le> v \<and> isDouble (ev a)
                 \<and> (v = 0 \<or> 2 * min_normal \<le> v * (y / x)))
          \<and> d3_sum S (nodeWeightEvaluator new) = Fin t"
    then show "\<bar>t - y\<bar> \<le> y * ((1 + 1 / 2 ^ 52) ^ (2 * length S + 2) - 1)" by (rule tol)
  qed
  have u: "jle W B \<longrightarrow> (\<forall>a\<in>set S. nodeWeights new a = nodeWeights old a)"
    using under by blast
  from o u show ?thesis
    unfolding Let_def S_def old_def new_def ev_def W_def B_def
    by (rule conjI)
qed

theorem applyBudget_rescales_buckets_over_budget_witness:
  "nodeWeights
     (heap (snd (applyBudget
        (\<lambda>g. [\<lparr>interval_startTimeMs = Fin 0, nodes = [[''1'']]\<rparr>,
               \<lparr>interval_startTimeMs = Fin 604800000, nodes = [[''2'']]\<rparr>])
        \<lparr>heap = [\<lparr>nodeWeights = [[''1''] \<mapsto> Fin 5, [''2''] \<mapsto> Fin 15]\<rparr>], trace = []\<rparr>
        \<lparr>graph = (), weights = 0\<rparr>
        \<lparr>entries = [\<lparr>prefix = [], periods = [\<lparr>startTimeMs = NInf, budget = Fin 10\<rparr>]\<rparr>],
         intervalLength = ''WEEKLY''\<rparr>)) ! 1) [''2''] = Some (Fin 10)
   \<and> nodeWeights
     (heap (snd (applyBudget
        (\<lambda>g. [\<lparr>interval_startTimeMs = Fin 0, nodes = [[''1'']]\<rparr>,
               \<lparr>interval_startTimeMs = Fin 604800000, nodes = [[''2'']]\<rparr>])
        \<lparr>heap = [\<lparr>nodeWeights = [[''1''] \<mapsto> Fin 5, [''2''] \<mapsto> Fin 15]\<rparr>], trace = []\<rparr>
        \<lparr>graph = (), weights = 0\<rparr>
        \<lparr>entries = [\<lparr>prefix = [], periods = [\<lparr>startTimeMs = NInf, budget = Fin 10\<rparr>]\<rparr>],
         intervalLength = ''WEEKLY''\<rparr>)) ! 1) [''1''] = Some (Fin 5)
   \<and> d3_sum [[''2'']] (nodeWeightEvaluator
     (heap (snd (applyBudget
        (\<lambda>g. [\<lparr>interval_startTimeMs = Fin 0, nodes = [[''1'']]\<rparr>,
               \<lparr>interval_startTimeMs = Fin 604800000, nodes = [[''2'']]\<rparr>])
        \<lparr>heap = [\<lparr>nodeWeights = [[''1''] \<mapsto> Fin 5, [''2''] \<mapsto> Fin 15]\<rparr>], trace = []\<rparr>
        \<lparr>graph = (), weights = 0\<rparr>
        \<lparr>entries = [\<lparr>prefix = [], periods = [\<lparr>startTimeMs = NInf, budget = Fin 10\<rparr>]\<rparr>],
         intervalLength = ''WEEKLY''\<rparr>)) ! 1)) = Fin 10
   \<and> d3_sum [[''1''], [''2''], [''3'']] (nodeWeightEvaluator
     (heap (snd (applyBudget
        (\<lambda>g. [\<lparr>interval_startTimeMs = Fin 0, nodes = [[''1''], [''2''], [''3'']]\<rparr>])
        \<lparr>heap = [\<lparr>nodeWeights = [[''1''] \<mapsto> Fin 1, [''2''] \<mapsto> Fin 2, [''3''] \<mapsto> Fin 12]\<rparr>],
         trace = []\<rparr>
        \<lparr>graph = (), weights = 0\<rparr>
        \<lparr>entries = [\<lparr>prefix = [], periods = [\<lparr>startTimeMs = NInf, budget = Fin 3\<rparr>]\<rparr>],
         intervalLength = ''WEEKLY''\<rparr>)) ! 1))
       = Fin (6755399441055745 / 2251799813685248)
   \<and> \<bar>6755399441055745 / 2251799813685248 - 3\<bar>
       \<le> (3::real) * ((1 + 1 / 2 ^ 52) ^ (2 * length [[''1''], [''2''], [''3'']] + 2) - 1)"
proof -
  let ?b1 = "\<lparr>interval_startTimeMs = Fin 0, nodes = [[''1'']]\<rparr>"
  let ?b2 = "\<lparr>interval_startTimeMs = Fin 604800000, nodes = [[''2'']]\<rparr>"
  let ?pg = "\<lambda>g::unit. [?b1, ?b2]"
  let ?old = "\<lparr>nodeWeights = [[''1''] \<mapsto> Fin 5, [''2''] \<mapsto> Fin 15]\<rparr>"
  let ?w = "\<lparr>heap = [?old], trace = []\<rparr>"
  let ?wg = "\<lparr>graph = (), weights = 0\<rparr>"
  let ?e = "\<lparr>prefix = [], periods = [\<lparr>startTimeMs = NInf, budget = Fin 10\<rparr>]\<rparr>"
  let ?b = "\<lparr>entries = [?e], intervalLength = ''WEEKLY''\<rparr>"
  let ?run = "applyBudget ?pg ?w ?wg ?b"
  have ref: "weights ?wg < length (heap ?w)" by simp
  have part: "distinct (concat (map nodes (?pg (graph ?wg))))" by simp
  have fst_run: "fst ?run = Inr \<lparr>graph = (), weights = 1\<rparr>"
    by (simp add: applyBudget_eq run_simps)
  then have run: "?run = (Inr \<lparr>graph = (), weights = 1\<rparr>, snd ?run)"
    by (metis prod.collapse)
  have e: "?e \<in> set (entries ?b)" by simp
  have bk1: "?b1 \<in> set (?pg (graph ?wg))" and bk2: "?b2 \<in> set (?pg (graph ?wg))" by simp_all
  have B1: "findCurrentBudget (periods ?e) (interval_startTimeMs ?b1) = Fin 10"
    and B2: "findCurrentBudget (periods ?e) (interval_startTimeMs ?b2) = Fin 10"
    by (simp_all add: findCurrentBudget_takeWhile)
  have W1: "d3_sum (filter (\<lambda>a. hasPrefix a (prefix ?e)) (nodes ?b1))
              (nodeWeightEvaluator (heap ?w ! weights ?wg)) = Fin 5"
    and W2: "d3_sum (filter (\<lambda>a. hasPrefix a (prefix ?e)) (nodes ?b2))
              (nodeWeightEvaluator (heap ?w ! weights ?wg)) = Fin 15"
    by (simp_all add: d3_sum_def nodeWeightEvaluator_def fl64_eval)
  have q: "jdiv (Fin 10) (Fin 15) = Fin (6004799503160661 / 9007199254740992)"
    by (simp add: fl64_eval)
  have p: "jmul (Fin 15) (Fin (6004799503160661 / 9007199254740992)) = Fin 10"
    by (simp add: fl64_eval)
  have d: "isDouble (Fin 15)" by (simp add: isDouble_def fl64_eval)
  have z: "jadd (Fin 0) (Fin 10) = Fin 10" by (simp add: fl64_eval)
  note t1 = applyBudget_rescales_buckets_over_budget[OF ref part run e bk1,
      unfolded Let_def B1 W1]
  note t2 = applyBudget_rescales_buckets_over_budget[OF ref part run e bk2,
      unfolded Let_def B2 W2 q]
  from t1 have u: "nodeWeights (heap (snd ?run) ! 1) [''1''] = Some (Fin 5)"
    by simp
  from t2 have o: "nodeWeights (heap (snd ?run) ! 1) [''2''] = Some (Fin 10)"
    by (simp add: nodeWeightEvaluator_def fl64_eval)
  from o have s: "d3_sum [[''2'']] (nodeWeightEvaluator (heap (snd ?run) ! 1)) = Fin 10"
    by (simp add: nodeWeightEvaluator_def d3_sum_def fl64_eval)
  let ?c1 = "\<lparr>interval_startTimeMs = Fin 0, nodes = [[''1''], [''2''], [''3'']]\<rparr>"
  let ?pg3 = "\<lambda>g::unit. [?c1]"
  let ?old3 = "\<lparr>nodeWeights = [[''1''] \<mapsto> Fin 1, [''2''] \<mapsto> Fin 2, [''3''] \<mapsto> Fin 12]\<rparr>"
  let ?w3 = "\<lparr>heap = [?old3], trace = []\<rparr>"
  let ?e3 = "\<lparr>prefix = [], periods = [\<lparr>startTimeMs = NInf, budget = Fin 3\<rparr>]\<rparr>"
  let ?b3 = "\<lparr>entries = [?e3], intervalLength = ''WEEKLY''\<rparr>"
  let ?run3 = "applyBudget ?pg3 ?w3 ?wg ?b3"
  let ?t = "6755399441055745 / 2251799813685248 :: real"
  have ref3: "weights ?wg < length (heap ?w3)" by simp
  have part3: "distinct (concat (map nodes (?pg3 (graph ?wg))))" by simp
  have "fst ?run3 = Inr \<lparr>graph = (), weights = 1\<rparr>"
    by (simp add: applyBudget_eq run_simps)
  then have run3: "?run3 = (Inr \<lparr>graph = (), weights = 1\<rparr>, snd ?run3)"
    by (metis prod.collapse)
  have new3: "heap (snd ?run3) ! 1 =
      \<lparr>nodeWeights = [[''1''] \<mapsto> Fin (3602879701896397 / 18014398509481984),
                      [''2''] \<mapsto> Fin (3602879701896397 / 9007199254740992),
                      [''3''] \<mapsto> Fin (1351079888211149 / 562949953421312)]\<rparr>"
    by (simp add: applyBudget_eq run_simps)
  have T3: "d3_sum [[''1''], [''2''], [''3'']] (nodeWeightEvaluator (heap (snd ?run3) ! 1))
      = Fin ?t"
    unfolding new3 by (simp add: d3_sum_def nodeWeightEvaluator_def fl64_eval)
  have e3: "?e3 \<in> set (entries ?b3)" by simp
  have bk3: "?c1 \<in> set (?pg3 (graph ?wg))" by simp
  have B3: "findCurrentBudget (periods ?e3) (interval_startTimeMs ?c1) = Fin 3"
    by (simp add: findCurrentBudget_takeWhile)
  have S3: "filter (\<lambda>a. hasPrefix a (prefix ?e3)) (nodes ?c1) = [[''1''], [''2''], [''3'']]"
    by simp
  have W3: "d3_sum [[''1''], [''2''], [''3'']] (nodeWeightEvaluator (heap ?w3 ! weights ?wg))
      = Fin 15"
    by (simp add: d3_sum_def nodeWeightEvaluator_def fl64_eval)
  have lt3: "jlt (Fin 3) (Fin 15)" by simp
  note t3 = applyBudget_rescales_buckets_over_budget[OF ref3 part3 run3 e3 bk3,
      unfolded Let_def S3 B3 W3, THEN conjunct1, THEN mp, OF lt3, THEN conjunct2,
      THEN conjunct2, THEN conjunct2, THEN spec[where x = "15::real"],
      THEN spec[where x = "3::real"], THEN spec[where x = ?t]]
  from t3 T3 have d: "\<bar>?t - 3\<bar>
      \<le> (3::real) * ((1 + 1 / 2 ^ 52) ^ (2 * length [[''1''], [''2''], [''3'']] + 2) - 1)"
    by (simp add: nodeWeightEvaluator_def isDouble_def fl64_eval)
  from u o s T3 d show ?thesis by simp
qed

text \<open>
  The claim as stated fails: three nodes of one bucket with the weights \<open>1\<close>, \<open>2\<close>
  and \<open>12\<close>, under a budget of \<open>3\<close>, get the normalizer \<open>3 / 15\<close> rounded and the
  new weights \<open>0.2\<close>, \<open>0.4\<close> and \<open>2.4000000000000004\<close>, whose sum is
  \<open>3.0000000000000004\<close> and not the budget.
\<close>

theorem applyBudget_rescaled_total_not_budget:
  "applyBudget
     (\<lambda>g. [\<lparr>interval_startTimeMs = Fin 0, nodes = [[''1''], [''2''], [''3'']]\<rparr>])
     \<lparr>heap = [\<lparr>nodeWeights = [[''1''] \<mapsto> Fin 1, [''2''] \<mapsto> Fin 2, [''3''] \<mapsto> Fin 12]\<rparr>],
      trace = []\<rparr>
     \<lparr>graph = (), weights = 0\<rparr>
     \<lparr>entries = [\<lparr>prefix = [], periods = [\<lparr>startTimeMs = NInf, budget = Fin 3\<rparr>]\<rparr>],
      intervalLength = ''WEEKLY''\<rparr>
   = (Inr \<lparr>graph = (), weights = 1\<rparr>,
      \<lparr>heap = [\<lparr>nodeWeights = [[''1''] \<mapsto> Fin 1, [''2''] \<mapsto> Fin 2, [''3''] \<mapsto> Fin 12]\<rparr>,
               \<lparr>nodeWeights = [[''1''] \<mapsto> Fin (3602879701896397 / 18014398509481984),
                               [''2''] \<mapsto> Fin (3602879701896397 / 9007199254740992),
                               [''3''] \<mapsto> Fin (1351079888211149 / 562949953421312)]\<rparr>],
       trace = [CheckedPrefixes, CheckedIntervalLength, CopiedWeights, CheckedPeriods [],
                EvaluatedWeight [''1''], EvaluatedWeight [''2''], EvaluatedWeight [''3''],
                ComputedNormalizer,
                SetWeight [''1''], SetWeight [''2''], SetWeight [''3'']]\<rparr>)
   \<and> jlt (findCurrentBudget [\<lparr>startTimeMs = NInf, budget = Fin 3\<rparr>] (Fin 0))
         (d3_sum [[''1''], [''2''], [''3'']] (nodeWeightEvaluator
            \<lparr>nodeWeights = [[''1''] \<mapsto> Fin 1, [''2''] \<mapsto> Fin 2, [''3''] \<mapsto> Fin 12]\<rparr>))
   \<and> d3_sum [[''1''], [''2''], [''3'']] (nodeWeightEvaluator
         \<lparr>nodeWeights = [[''1''] \<mapsto> Fin (3602879701896397 / 18014398509481984),
                         [''2''] \<mapsto> Fin (3602879701896397 / 9007199254740992),
                         [''3''] \<mapsto> Fin (1351079888211149 / 562949953421312)]\<rparr>)
       = Fin (6755399441055745 / 2251799813685248)
   \<and> Fin (6755399441055745 / 2251799813685248)
       \<noteq> findCurrentBudget [\<lparr>startTimeMs = NInf, budget = Fin 3\<rparr>] (Fin 0)"
  by (simp add: applyBudget_eq run_simps)

section \<open>One reweight per address\<close>

lemma entryReweights_Cons:
  "entryReweights ev (bk # part) e =
     bucketReweights ev (periods e) (prefix e) bk @ entryReweights ev part e"
  by (simp add: entryReweights_def)

lemma bucketReweights_addresses_distinct:
  "distinct (nodes bk) \<Longrightarrow> distinct (map address (bucketReweights ev ps pre bk))"
  by (simp add: bucketReweights_alt comp_def)

lemma entryReweights_addresses_distinct:
  "distinct (concat (map nodes part)) \<Longrightarrow> distinct (map address (entryReweights ev part e))"
proof (induction part)
  case Nil
  then show ?case by (simp add: entryReweights_def)
next
  case (Cons bk part)
  from Cons.prems have d: "distinct (nodes bk)" "distinct (concat (map nodes part))"
    and disj: "set (nodes bk) \<inter> (\<Union>y\<in>set part. set (nodes y)) = {}"
    by auto
  have a: "address ` set (bucketReweights ev (periods e) (prefix e) bk) \<subseteq> set (nodes bk)"
    by (auto simp: in_bucketReweights)
  have b: "address ` set (entryReweights ev part e) \<subseteq> (\<Union>y\<in>set part. set (nodes y))"
    by (auto simp: in_entryReweights in_bucketReweights)
  from a b disj have "address ` set (bucketReweights ev (periods e) (prefix e) bk)
      \<inter> address ` set (entryReweights ev part e) = {}"
    by blast
  with bucketReweights_addresses_distinct[OF d(1)] Cons.IH[OF d(2)] show ?case
    by (simp add: entryReweights_Cons)
qed

lemma reweighting_addresses_distinct:
  assumes "\<not> anyCommonPrefixes (map prefix es)"
    and part: "distinct (concat (map nodes part))"
  shows "distinct (map address (concat (map (entryReweights ev part) es)))"
  using assms(1)
proof (induction es)
  case Nil
  then show ?case by simp
next
  case (Cons e es)
  from Cons.prems have tl: "\<not> anyCommonPrefixes (map prefix es)"
    using no_conflict_tail[of "prefix e" "map prefix es"] by simp
  from Cons.prems have dp: "distinct (map prefix (e # es))"
    unfolding anyCommonPrefixes_iff_set by blast
  have disj: "address ` set (entryReweights ev part e)
      \<inter> address ` set (concat (map (entryReweights ev part) es)) = {}"
  proof (rule ccontr)
    assume "\<not> ?thesis"
    then obtain r r' where r: "r \<in> set (entryReweights ev part e)"
      and r': "r' \<in> set (concat (map (entryReweights ev part) es))"
      and eq: "address r = address r'"
      by blast
    from r have p: "hasPrefix (address r) (prefix e)"
      by (auto simp: in_entryReweights in_bucketReweights)
    from r' obtain e' where e': "e' \<in> set es" and p': "hasPrefix (address r') (prefix e')"
      by (auto simp: in_entryReweights in_bucketReweights)
    have "e = e'"
      using Cons.prems _ _ p p'[folded eq]
      by (rule no_conflict_entry_unique) (use e' in simp_all)
    with e' dp show False by auto
  qed
  from entryReweights_addresses_distinct[OF part, of ev e] Cons.IH[OF tl] disj
  show ?case by simp
qed

lemma computeReweighting_fst:
  "fst (computeReweighting pg w wg b) =
     (if \<forall>e\<in>set (entries b). periodsInOrder e
      then Inr (concat (map (entryReweights (nodeWeightEvaluator (heap w ! weights wg))
                  (pg (graph wg))) (entries b)))
      else Inl (PeriodsOutOfOrder (prefix (hd (dropWhile periodsInOrder (entries b))))))"
  by (simp add: computeReweighting_def computeReweighting_map_eq Let_def)

lemma count_list_distinct: "distinct xs \<Longrightarrow> x \<in> set xs \<Longrightarrow> count_list xs x = 1"
  by (induction xs) auto

lemma count_list_SetWeight:
  "count_list (map (\<lambda>r. SetWeight (address r)) rs) (SetWeight a) = count_list (map address rs) a"
  by (induction rs) auto

text \<open>
  C9: when the prefixes of the policy's entries do not conflict and the partition puts
  every node address in one bucket, the reweighting that \<open>_computeReweighting\<close>
  returns holds at most one record per address; the loop of \<open>applyBudget\<close> then
  sets the weight of each reweighted address exactly once, to its original weight
  (\<open>1\<close> when absent) times the weight of its one record.
\<close>

theorem computeReweighting_one_reweight_per_address:
  assumes ref: "weights wg < length (heap w)"
    and nc: "\<not> anyCommonPrefixes (map prefix (entries b))"
    and part: "distinct (concat (map nodes (pg (graph wg))))"
    and rw: "fst (computeReweighting pg w wg b) = Inr R"
  shows "distinct (map address R)
     \<and> (\<forall>wg' w'. applyBudget pg w wg b = (Inr wg', w') \<longrightarrow>
          (\<forall>r\<in>set R.
              nodeWeights (heap w' ! weights wg') (address r)
                = Some (jmul (orElse (nodeWeights (heap w ! weights wg) (address r)) (Fin 1))
                          (weight r))
            \<and> count_list (drop (length (trace w)) (trace w')) (SetWeight (address r)) = 1))"
proof (intro conjI allI impI ballI)
  let ?ev = "nodeWeightEvaluator (heap w ! weights wg)"
  let ?orig = "nodeWeights (heap w ! weights wg)"
  from rw have R: "R = concat (map (entryReweights ?ev (pg (graph wg))) (entries b))"
    unfolding computeReweighting_fst by (simp split: if_splits)
  show d: "distinct (map address R)"
    unfolding R using nc part by (rule reweighting_addresses_distinct)
  fix wg' w' r
  assume run: "applyBudget pg w wg b = (Inr wg', w')" and r: "r \<in> set R"
  note ok = applyBudget_success[OF ref run]
  have single: "\<forall>r'\<in>set R. address r' = address r \<longrightarrow> weight r' = weight r"
  proof (intro ballI impI)
    fix r' assume "r' \<in> set R" "address r' = address r"
    moreover from d have "inj_on address (set R)" by (simp add: distinct_map)
    ultimately have "r' = r" using r by (auto dest: inj_onD)
    then show "weight r' = weight r" by simp
  qed
  have "materialize ?orig R ?orig (address r)
      = Some (jmul (orElse (?orig (address r)) (Fin 1)) (weight r))"
  proof (rule materialize_same_weight[OF single])
    show "address r \<in> address ` set R" using r by (rule imageI)
  qed
  then show "nodeWeights (heap w' ! weights wg') (address r)
                = Some (jmul (orElse (?orig (address r)) (Fin 1)) (weight r))"
    unfolding ok(5) R by simp
  have "SetWeight (address r) \<notin> set (concat (map (entryEvents (pg (graph wg))) (entries b)))"
  proof
    assume "SetWeight (address r) \<in> set (concat (map (entryEvents (pg (graph wg))) (entries b)))"
    then have "\<not> isTableWrite (SetWeight (address r))"
      by (rule entryEvents_kinds[THEN conjunct2])
    then show False by simp
  qed
  then have zero: "count_list (concat (map (entryEvents (pg (graph wg))) (entries b)))
      (SetWeight (address r)) = 0"
    by (simp add: count_list_0_iff)
  have mem: "address r \<in> set (map address R)" using r by simp
  from d mem have one: "count_list (map address R) (address r) = 1"
    by (rule count_list_distinct)
  have sets: "count_list (map (\<lambda>r. SetWeight (address r)) R) (SetWeight (address r)) = 1"
    unfolding count_list_SetWeight by (rule one)
  have tr: "drop (length (trace w)) (trace w') =
      [CheckedPrefixes, CheckedIntervalLength, CopiedWeights]
      @ concat (map (entryEvents (pg (graph wg))) (entries b))
      @ map (\<lambda>r. SetWeight (address r)) R"
    unfolding ok(6) R by simp
  show "count_list (drop (length (trace w)) (trace w')) (SetWeight (address r)) = 1"
    unfolding tr count_list_append zero sets by simp
qed

theorem computeReweighting_one_reweight_per_address_witness:
  "fst (computeReweighting
     (\<lambda>g. [\<lparr>interval_startTimeMs = Fin 0, nodes = [[''1''], [''2'']]\<rparr>])
     \<lparr>heap = [\<lparr>nodeWeights = [[''1''] \<mapsto> Fin 10, [''2''] \<mapsto> Fin 90]\<rparr>], trace = []\<rparr>
     \<lparr>graph = (), weights = 0\<rparr>
     \<lparr>entries = [\<lparr>prefix = [], periods = [\<lparr>startTimeMs = NInf, budget = Fin 10\<rparr>]\<rparr>],
      intervalLength = ''WEEKLY''\<rparr>)
   = Inr [\<lparr>address = [''1''], weight = Fin (3602879701896397 / 36028797018963968)\<rparr>,
          \<lparr>address = [''2''], weight = Fin (3602879701896397 / 36028797018963968)\<rparr>]
   \<and> distinct (map address
        [\<lparr>address = [''1''], weight = Fin (3602879701896397 / 36028797018963968)\<rparr>,
         \<lparr>address = [''2''], weight = Fin (3602879701896397 / 36028797018963968)\<rparr>])
   \<and> nodeWeights (heap (snd (applyBudget
     (\<lambda>g. [\<lparr>interval_startTimeMs = Fin 0, nodes = [[''1''], [''2'']]\<rparr>])
     \<lparr>heap = [\<lparr>nodeWeights = [[''1''] \<mapsto> Fin 10, [''2''] \<mapsto> Fin 90]\<rparr>], trace = []\<rparr>
     \<lparr>graph = (), weights = 0\<rparr>
     \<lparr>entries = [\<lparr>prefix = [], periods = [\<lparr>startTimeMs = NInf, budget = Fin 10\<rparr>]\<rparr>],
      intervalLength = ''WEEKLY''\<rparr>)) ! 1) [''2''] = Some (Fin 9)
   \<and> count_list (trace (snd (applyBudget
     (\<lambda>g. [\<lparr>interval_startTimeMs = Fin 0, nodes = [[''1''], [''2'']]\<rparr>])
     \<lparr>heap = [\<lparr>nodeWeights = [[''1''] \<mapsto> Fin 10, [''2''] \<mapsto> Fin 90]\<rparr>], trace = []\<rparr>
     \<lparr>graph = (), weights = 0\<rparr>
     \<lparr>entries = [\<lparr>prefix = [], periods = [\<lparr>startTimeMs = NInf, budget = Fin 10\<rparr>]\<rparr>],
      intervalLength = ''WEEKLY''\<rparr>))) (SetWeight [''2'']) = 1"
proof -
  let ?pg = "\<lambda>g::unit. [\<lparr>interval_startTimeMs = Fin 0, nodes = [[''1''], [''2'']]\<rparr>]"
  let ?old = "\<lparr>nodeWeights = [[''1''] \<mapsto> Fin 10, [''2''] \<mapsto> Fin 90]\<rparr>"
  let ?w = "\<lparr>heap = [?old], trace = []\<rparr>"
  let ?wg = "\<lparr>graph = (), weights = 0\<rparr>"
  let ?b = "\<lparr>entries = [\<lparr>prefix = [], periods = [\<lparr>startTimeMs = NInf, budget = Fin 10\<rparr>]\<rparr>],
      intervalLength = ''WEEKLY''\<rparr>"
  let ?r1 = "\<lparr>address = [''1''], weight = Fin (3602879701896397 / 36028797018963968)\<rparr>"
  let ?r2 = "\<lparr>address = [''2''], weight = Fin (3602879701896397 / 36028797018963968)\<rparr>"
  let ?run = "applyBudget ?pg ?w ?wg ?b"
  have ref: "weights ?wg < length (heap ?w)" by simp
  have nc: "\<not> anyCommonPrefixes (map prefix (entries ?b))"
    by (simp add: anyCommonPrefixes_iff_set)
  have part: "distinct (concat (map nodes (?pg (graph ?wg))))" by simp
  have rw: "fst (computeReweighting ?pg ?w ?wg ?b) = Inr [?r1, ?r2]"
    by (simp add: computeReweighting_fst run_simps Let_def)
  have "fst ?run = Inr \<lparr>graph = (), weights = 1\<rparr>"
    by (simp add: applyBudget_eq run_simps)
  then have run: "?run = (Inr \<lparr>graph = (), weights = 1\<rparr>, snd ?run)"
    by (metis prod.collapse)
  note th = computeReweighting_one_reweight_per_address[OF ref nc part rw]
  from th have d: "distinct (map address [?r1, ?r2])" by (rule conjunct1)
  from th run have "\<forall>r\<in>set [?r1, ?r2].
              nodeWeights (heap (snd ?run) ! weights \<lparr>graph = (), weights = 1\<rparr>) (address r)
                = Some (jmul (orElse (nodeWeights (heap ?w ! weights ?wg) (address r)) (Fin 1))
                          (weight r))
            \<and> count_list (drop (length (trace ?w)) (trace (snd ?run))) (SetWeight (address r)) = 1"
    by blast
  then have "nodeWeights (heap (snd ?run) ! 1) [''2''] = Some (Fin 9)
      \<and> count_list (trace (snd ?run)) (SetWeight [''2'']) = 1"
    by (simp add: orElse_def fl64_eval)
  with rw d show ?thesis by simp
qed

section \<open>Buckets whose weights sum to zero\<close>

lemma normalizer_of_zero_sum:
  "jle (Fin 0) bud \<Longrightarrow> d3_sum aws weight = Fin 0 \<Longrightarrow> computeWeightNormalizer aws bud = Fin 1"
  by (cases bud) (auto simp: computeWeightNormalizer_def)

lemma d3_sum_zeros: "\<forall>x\<in>set xs. f x = Fin 0 \<Longrightarrow> d3_sum xs f = Fin 0"
  unfolding d3_sum_def by (rule d3_sum_loop_zeros) simp

lemma bucketReweights_zero_weights:
  assumes "jle (Fin 0) (findCurrentBudget ps (interval_startTimeMs bk))"
    and "\<forall>a\<in>set (nodes bk). hasPrefix a pre \<longrightarrow> ev a = Fin 0"
  shows "bucketReweights ev ps pre bk = []"
proof -
  have "d3_sum (map (\<lambda>a. \<lparr>address = a, weight = ev a\<rparr>)
            (filter (\<lambda>a. hasPrefix a pre) (nodes bk))) weight = Fin 0"
    using assms(2) by (intro d3_sum_zeros) simp
  with assms(1) have "bucketNormalizer ev ps pre bk = Fin 1"
    unfolding bucketNormalizer_def by (intro normalizer_of_zero_sum)
  then show ?thesis by (simp add: bucketReweights_alt)
qed

text \<open>
  C10: for every budget that is at least \<open>0\<close>, \<open>_computeWeightNormalizer\<close> returns
  \<open>1\<close> on a list whose weights sum to \<open>0\<close>, which the empty list and a list of zero
  weights do, also when the budget is \<open>0\<close>. So the loop of \<open>_reweightingForEntry\<close>
  records no reweight for a bucket with no matching node, or whose matching weights
  are all \<open>0\<close>.
\<close>

theorem computeWeightNormalizer_zero_sum:
  "(jle (Fin 0) bud \<and> d3_sum aws weight = Fin 0 \<longrightarrow> computeWeightNormalizer aws bud = Fin 1)
   \<and> computeWeightNormalizer [] (Fin 0) = Fin 1
   \<and> ((\<forall>aw\<in>set aws. weight aw = Fin 0) \<longrightarrow> d3_sum aws weight = Fin 0)
   \<and> (jle (Fin 0) (findCurrentBudget ps (interval_startTimeMs bk))
        \<and> (\<forall>a\<in>set (nodes bk). hasPrefix a pre \<longrightarrow> ev a = Fin 0)
      \<longrightarrow> fst (reweightingForEntry_loop ev ps pre [bk] results tr) = results)"
proof (intro conjI impI)
  assume "jle (Fin 0) bud \<and> d3_sum aws weight = Fin 0"
  then show "computeWeightNormalizer aws bud = Fin 1"
    by (simp add: normalizer_of_zero_sum)
next
  show "computeWeightNormalizer [] (Fin 0) = Fin 1"
    by (simp add: computeWeightNormalizer_def d3_sum_def)
next
  assume "\<forall>aw\<in>set aws. weight aw = Fin 0"
  then show "d3_sum aws weight = Fin 0" by (rule d3_sum_zeros)
next
  assume "jle (Fin 0) (findCurrentBudget ps (interval_startTimeMs bk))
        \<and> (\<forall>a\<in>set (nodes bk). hasPrefix a pre \<longrightarrow> ev a = Fin 0)"
  then have "bucketReweights ev ps pre bk = []"
    by (intro bucketReweights_zero_weights) simp_all
  then show "fst (reweightingForEntry_loop ev ps pre [bk] results tr) = results"
    by (simp add: reweightingForEntry_loop_eq)
qed

theorem computeWeightNormalizer_zero_sum_witness:
  "computeWeightNormalizer
     [\<lparr>address = [''1''], weight = Fin 0\<rparr>, \<lparr>address = [''2''], weight = Fin 0\<rparr>] (Fin 0) = Fin 1
   \<and> fst (reweightingForEntry_loop (\<lambda>a. Fin 0) [\<lparr>startTimeMs = NInf, budget = Fin 0\<rparr>] []
        [\<lparr>interval_startTimeMs = Fin 0, nodes = [[''1''], [''2'']]\<rparr>] [] []) = []"
proof -
  let ?aws = "[\<lparr>address = [''1''], weight = Fin 0\<rparr>, \<lparr>address = [''2''], weight = Fin 0\<rparr>]"
  let ?ps = "[\<lparr>startTimeMs = NInf, budget = Fin 0\<rparr>]"
  let ?bk = "\<lparr>interval_startTimeMs = Fin 0, nodes = [[''1''], [''2'']]\<rparr>"
  note th = computeWeightNormalizer_zero_sum[of "Fin 0" ?aws ?ps ?bk "[]" "\<lambda>a. Fin 0" "[]" "[]"]
  have z: "\<forall>aw\<in>set ?aws. weight aw = Fin 0" by simp
  with th have s: "d3_sum ?aws weight = Fin 0" by blast
  have "jle (Fin 0) (Fin 0)" by simp
  with th s have a: "computeWeightNormalizer ?aws (Fin 0) = Fin 1" by blast
  have "jle (Fin 0) (findCurrentBudget ?ps (interval_startTimeMs ?bk))"
    by (simp add: findCurrentBudget_takeWhile)
  moreover have "\<forall>a\<in>set (nodes ?bk). hasPrefix a [] \<longrightarrow> (\<lambda>a. Fin 0) a = Fin 0"
    by simp
  ultimately have "fst (reweightingForEntry_loop (\<lambda>a. Fin 0) ?ps [] [?bk] [] []) = []"
    using th by blast
  with a show ?thesis by simp
qed

end
